theory Spec2Isabelle
  imports Main "HOL-Library.Sublist"
begin

section \<open>JavaScript values used by the middleware\<close>

text \<open>
  An optional string property of a JavaScript object is a \<open>string option\<close>
  (\<open>None\<close> is \<open>undefined\<close>). A string is truthy when it is not empty.
\<close>

definition truthy :: "string option \<Rightarrow> bool" where
  "truthy x = (case x of None \<Rightarrow> False | Some s \<Rightarrow> s \<noteq> [])"

text \<open>\<open>a || b\<close> on an optional string with a string default.\<close>

definition or_else :: "string option \<Rightarrow> string \<Rightarrow> string" where
  "or_else x d = (case x of None \<Rightarrow> d | Some s \<Rightarrow> (if s = [] then d else s))"

subsection \<open>Characters\<close>

text \<open>
  A JavaScript string is a sequence of UTF-16 code units. The model covers the strings
  whose code units are below 256: a \<open>char\<close> is the code unit of that value (Latin-1).
  On this range the Unicode classes \<open>\p{L}\<close>, \<open>\p{N}\<close>, the class \<open>\s\<close> and
  \<open>toLowerCase\<close> are the finite tables below; \<open>\w\<close> is \<open>[A-Za-z0-9_]\<close> (the
  patterns that use \<open>\b\<close> carry neither the \<open>u\<close> nor the \<open>i\<close> flag).
\<close>

definition code :: "char \<Rightarrow> nat" where
  "code c = of_char c"

definition is_space :: "char \<Rightarrow> bool" where
  "is_space c = (code c \<in> {9, 10, 11, 12, 13, 32, 160})"

definition is_letter :: "char \<Rightarrow> bool" where
  "is_letter c =
     ((65 \<le> code c \<and> code c \<le> 90) \<or> (97 \<le> code c \<and> code c \<le> 122)
      \<or> code c = 170 \<or> code c = 181 \<or> code c = 186
      \<or> (192 \<le> code c \<and> code c \<le> 214) \<or> (216 \<le> code c \<and> code c \<le> 246)
      \<or> 248 \<le> code c)"

definition is_number :: "char \<Rightarrow> bool" where
  "is_number c =
     ((48 \<le> code c \<and> code c \<le> 57) \<or> code c = 178 \<or> code c = 179 \<or> code c = 185
      \<or> (188 \<le> code c \<and> code c \<le> 190))"

definition is_word_char :: "char \<Rightarrow> bool" where
  "is_word_char c =
     ((65 \<le> code c \<and> code c \<le> 90) \<or> (97 \<le> code c \<and> code c \<le> 122)
      \<or> (48 \<le> code c \<and> code c \<le> 57) \<or> code c = 95)"

definition is_upper :: "char \<Rightarrow> bool" where
  "is_upper c =
     ((65 \<le> code c \<and> code c \<le> 90) \<or> (192 \<le> code c \<and> code c \<le> 214)
      \<or> (216 \<le> code c \<and> code c \<le> 222))"

definition lower_char :: "char \<Rightarrow> char" where
  "lower_char c = (if is_upper c then char_of (code c + 32) else c)"

definition toLowerCase :: "string \<Rightarrow> string" where
  "toLowerCase s = map lower_char s"

text \<open>\<open>s.includes(t)\<close>: \<open>t\<close> occurs in \<open>s\<close> as a contiguous substring.\<close>

fun includes_str :: "string \<Rightarrow> string \<Rightarrow> bool" where
  "includes_str [] t = (t = [])"
| "includes_str (c # cs) t = (prefix t (c # cs) \<or> includes_str cs t)"

text \<open>\<open>s.trim()\<close>\<close>

definition trim :: "string \<Rightarrow> string" where
  "trim s = rev (dropWhile is_space (rev (dropWhile is_space s)))"

text \<open>\<open>entity_id.split('.', 1)[0]\<close>: the text before the first dot.\<close>

definition domain_of :: "string \<Rightarrow> string" where
  "domain_of entity_id = takeWhile (\<lambda>c. c \<noteq> CHR ''.'') entity_id"

subsection \<open>Global regular-expression replacement\<close>

text \<open>
  \<open>s.replace(/re/g, r)\<close> scans \<open>s\<close> from the left. At each position the expression is
  tried; a match is replaced and the scan goes on behind it (behind the next character
  when the match is empty), otherwise the character is copied. A pattern is modelled by
  its matcher at one position: given the character before the position (\<open>None\<close> at the
  start, as \<open>\b\<close> needs it) and the text from the position on, the length of the match
  and the text that replaces it.
\<close>

type_synonym matcher = "char option \<Rightarrow> string \<Rightarrow> (nat \<times> string) option"

function replace_g :: "matcher \<Rightarrow> char option \<Rightarrow> string \<Rightarrow> string" where
  "replace_g m prev [] = (case m prev [] of None \<Rightarrow> [] | Some (n, r) \<Rightarrow> r)"
| "replace_g m prev (c # cs) =
     (case m prev (c # cs) of
        None \<Rightarrow> c # replace_g m (Some c) cs
      | Some (n, r) \<Rightarrow>
          (if n = 0 then r @ c # replace_g m (Some c) cs
           else r @ replace_g m (Some (last (take n (c # cs)))) (drop n (c # cs))))"
  by pat_completeness auto
termination
  by (relation "measure (\<lambda>(m, prev, s). length s)") auto

definition replace_all :: "matcher \<Rightarrow> string \<Rightarrow> string" where
  "replace_all m s = replace_g m None s"

definition hd_opt :: "string \<Rightarrow> char option" where
  "hd_opt s = (case s of [] \<Rightarrow> None | c # _ \<Rightarrow> Some c)"

definition is_word_opt :: "char option \<Rightarrow> bool" where
  "is_word_opt x = (case x of None \<Rightarrow> False | Some c \<Rightarrow> is_word_char c)"

text \<open>\<open>\b\<close> between two neighbouring positions: exactly one side is a word character.\<close>

definition at_boundary :: "char option \<Rightarrow> char option \<Rightarrow> bool" where
  "at_boundary a b = (is_word_opt a \<noteq> is_word_opt b)"

text \<open>\<open>/[^\p{L}\p{N}\s%.-]/gu\<close> (normalizer) and \<open>/[^\p{L}\p{N}\s]/gu\<close> (tokenizer).\<close>

definition keep_normalize :: "char \<Rightarrow> bool" where
  "keep_normalize c =
     (is_letter c \<or> is_number c \<or> is_space c \<or> c = CHR ''%'' \<or> c = CHR ''.'' \<or> c = CHR ''-'')"

definition keep_tokenize :: "char \<Rightarrow> bool" where
  "keep_tokenize c = (is_letter c \<or> is_number c \<or> is_space c)"

definition match_not :: "(char \<Rightarrow> bool) \<Rightarrow> string \<Rightarrow> matcher" where
  "match_not keep r prev s =
     (case s of [] \<Rightarrow> None | c # _ \<Rightarrow> if keep c then None else Some (1, r))"

text \<open>\<open>/\bW\b/g\<close> for a literal word \<open>W\<close>, replaced by \<open>r\<close>.\<close>

definition match_word :: "string \<Rightarrow> string \<Rightarrow> matcher" where
  "match_word w r prev s =
     (if at_boundary prev (hd_opt s) \<and> prefix w s
         \<and> at_boundary (if w = [] then prev else Some (last w)) (hd_opt (drop (length w) s))
      then Some (length w, r) else None)"

text \<open>
  \<open>/\bswitch\s+(on|off)\b/g\<close> replaced by \<open>'turn $1'\<close>. \<open>\s+\<close> is greedy and what
  follows it is not white space, so it takes the whole run of white space.
\<close>

definition match_switch :: matcher where
  "match_switch prev s =
     (if at_boundary prev (hd_opt s) \<and> prefix ''switch'' s then
        (let rest = drop 6 s;
             ws = takeWhile is_space rest;
             rest2 = dropWhile is_space rest
         in if ws = [] then None
            else if prefix ''on'' rest2 \<and> at_boundary (Some CHR ''n'') (hd_opt (drop 2 rest2))
              then Some (6 + length ws + 2, ''turn on'')
            else if prefix ''off'' rest2 \<and> at_boundary (Some CHR ''f'') (hd_opt (drop 3 rest2))
              then Some (6 + length ws + 3, ''turn off'')
            else None)
      else None)"

text \<open>\<open>/\s+/g\<close> replaced by one space.\<close>

definition match_spaces :: matcher where
  "match_spaces prev s =
     (let n = length (takeWhile is_space s) in if n = 0 then None else Some (n, '' ''))"

section \<open>Utterance normalizer (normalize.js)\<close>

definition SYNONYM_REPLACEMENTS :: "matcher list" where
  "SYNONYM_REPLACEMENTS =
     [match_switch,
      match_word ''please'' [],
      match_word ''the'' [],
      match_word ''a'' [],
      match_word ''an'' [],
      match_word ''my'' []]"

definition normalizeUtterance :: "string \<Rightarrow> string" where
  "normalizeUtterance text =
     (if text = [] then []
      else
        let normalized = toLowerCase text;
            normalized = replace_all (match_not keep_normalize '' '') normalized;
            normalized = foldl (\<lambda>n pattern. replace_all pattern n) normalized SYNONYM_REPLACEMENTS;
            normalized = trim (replace_all match_spaces normalized)
        in normalized)"

section \<open>Tool calls\<close>

text \<open>
  The input of a tool call is a JSON object; its properties are those of the three tool
  schemas of \<open>index.js\<close>, each optional. \<open>data\<close> is an open object, kept as a list
  of properties.
\<close>

record target =
  target_entity_id :: "string option"
  target_area_id :: "string option"

record tool_input =
  in_domain :: "string option"
  in_service :: "string option"
  in_target :: "target option"
  in_data :: "(string \<times> string) list option"
  in_entity_id :: "string option"
  in_search :: "string option"

record tool_call =
  tc_name :: string
  tc_input :: "tool_input option"

text \<open>\<open>input?.target?.entity_id\<close>, \<open>input?.service\<close> and \<open>input?.entity_id\<close>\<close>

definition input_target_entity_id :: "tool_input option \<Rightarrow> string option" where
  "input_target_entity_id inp =
     (case inp of None \<Rightarrow> None
      | Some i \<Rightarrow> (case in_target i of None \<Rightarrow> None | Some t \<Rightarrow> target_entity_id t))"

definition input_service :: "tool_input option \<Rightarrow> string option" where
  "input_service inp = (case inp of None \<Rightarrow> None | Some i \<Rightarrow> in_service i)"

definition input_entity_id :: "tool_input option \<Rightarrow> string option" where
  "input_entity_id inp = (case inp of None \<Rightarrow> None | Some i \<Rightarrow> in_entity_id i)"

section \<open>Hub client (homeassistant.js)\<close>

subsection \<open>Tokenizing and scoring\<close>

text \<open>
  \<open>s.split(/\s+/)\<close>: the pieces between the runs of white space; a leading or trailing
  run leaves an empty piece, which \<open>filter(Boolean)\<close> drops afterwards.
\<close>

function split_ws :: "string \<Rightarrow> string \<Rightarrow> string list" where
  "split_ws cur [] = [cur]"
| "split_ws cur (c # cs) =
     (if is_space c then cur # split_ws [] (dropWhile is_space cs)
      else split_ws (cur @ [c]) cs)"
  by pat_completeness auto
termination
  by (relation "measure (\<lambda>(cur, s). length s)")
     (auto simp: le_imp_less_Suc length_dropWhile_le)

definition tokenize :: "string \<Rightarrow> string list" where
  "tokenize text =
     filter (\<lambda>t. t \<noteq> [])
       (split_ws [] (replace_all (match_not keep_tokenize '' '') (toLowerCase text)))"

text \<open>The loop of \<open>scoreMatch\<close> over the query tokens, with the running score.\<close>

fun scoreLoop :: "string list \<Rightarrow> string list \<Rightarrow> string \<Rightarrow> int \<Rightarrow> int" where
  "scoreLoop [] entityTokens entityId score = score"
| "scoreLoop (token # rest) entityTokens entityId score =
     scoreLoop rest entityTokens entityId
       (let score = (if token \<in> set entityTokens then score + 3 else score)
        in if includes_str entityId token then score + 1 else score)"

definition scoreMatch :: "string list \<Rightarrow> string list \<Rightarrow> string \<Rightarrow> int" where
  "scoreMatch queryTokens entityTokens entityId =
     (if length queryTokens = 0 then 0 else scoreLoop queryTokens entityTokens entityId 0)"

subsection \<open>The directory snapshot\<close>

text \<open>
  A state object as the hub reports it. Of the open \<open>attributes\<close> mapping the code reads
  \<open>friendly_name\<close> and \<open>unit_of_measurement\<close> only.
\<close>

record state_attrs =
  friendly_name :: "string option"
  unit_of_measurement :: "string option"

record state_obj =
  so_entity_id :: string
  so_state :: string
  so_attributes :: "state_attrs option"

text \<open>\<open>stateObj.attributes?.friendly_name\<close> and \<open>stateObj.attributes?.unit_of_measurement\<close>\<close>

definition attr_friendly_name :: "state_obj \<Rightarrow> string option" where
  "attr_friendly_name s = (case so_attributes s of None \<Rightarrow> None | Some a \<Rightarrow> friendly_name a)"

definition attr_unit :: "state_obj \<Rightarrow> string option" where
  "attr_unit s = (case so_attributes s of None \<Rightarrow> None | Some a \<Rightarrow> unit_of_measurement a)"

text \<open>\<open>state.attributes || {}\<close>\<close>

definition attrs_or_empty :: "state_obj \<Rightarrow> state_attrs" where
  "attrs_or_empty s =
     (case so_attributes s of
        None \<Rightarrow> \<lparr>friendly_name = None, unit_of_measurement = None\<rparr>
      | Some a \<Rightarrow> a)"

text \<open>An entry of \<open>entitiesByDomain\<close>.\<close>

record entity =
  entity_id :: string
  name :: string
  state :: string
  attributes :: state_attrs
  tokens :: "string list"

text \<open>What \<open>findEntities\<close> returns of an entity: \<open>_tokens\<close> and \<open>attributes\<close> are dropped.\<close>

record entity_view =
  view_entity_id :: string
  view_name :: string
  view_state :: string

record entity_summary =
  sum_entity_id :: string
  sum_name :: string
  sum_domain :: string
  sum_attributes :: state_attrs

text \<open>
  The variables of the closure of \<open>createHAClient\<close>, and \<open>statesTtlMs\<close> of its
  configuration. \<open>refreshInFlight\<close> holds the handle of a promise, or \<open>None\<close> for
  \<open>null\<close>.
\<close>

record ha_client =
  statesTtlMs :: int
  lastStatesRefreshAt :: int
  statesByEntityId :: "string \<rightharpoonup> state_obj"
  entitiesByDomain :: "string \<rightharpoonup> entity list"
  refreshInFlight :: "nat option"

definition createHAClient :: "int \<Rightarrow> ha_client" where
  "createHAClient ttl =
     \<lparr>statesTtlMs = ttl, lastStatesRefreshAt = 0, statesByEntityId = Map.empty,
      entitiesByDomain = Map.empty, refreshInFlight = None\<rparr>"

definition make_entity :: "state_obj \<Rightarrow> entity" where
  "make_entity s =
     \<lparr>entity_id = so_entity_id s,
      name = or_else (attr_friendly_name s) (so_entity_id s),
      state = so_state s,
      attributes = attrs_or_empty s,
      tokens = tokenize (or_else (attr_friendly_name s) (so_entity_id s))\<rparr>"

text \<open>
  \<open>new Map(states.map(s => [s.entity_id, s]))\<close>: a later state of the same id
  replaces an earlier one.
\<close>

fun states_map :: "state_obj list \<Rightarrow> (string \<rightharpoonup> state_obj) \<Rightarrow> (string \<rightharpoonup> state_obj)" where
  "states_map [] m = m"
| "states_map (s # ss) m = states_map ss (m(so_entity_id s \<mapsto> s))"

text \<open>The loop of \<open>indexStates\<close> that fills \<open>nextByDomain\<close>.\<close>

fun domain_index :: "state_obj list \<Rightarrow> (string \<rightharpoonup> entity list) \<Rightarrow> (string \<rightharpoonup> entity list)" where
  "domain_index [] nextByDomain = nextByDomain"
| "domain_index (s # ss) nextByDomain =
     (let domain = domain_of (so_entity_id s);
          list = (case nextByDomain domain of None \<Rightarrow> [] | Some l \<Rightarrow> l)
      in domain_index ss (nextByDomain(domain \<mapsto> list @ [make_entity s])))"

definition indexStates :: "state_obj list \<Rightarrow> ha_client \<Rightarrow> ha_client" where
  "indexStates states c =
     c\<lparr>statesByEntityId := states_map states Map.empty,
       entitiesByDomain := domain_index states Map.empty\<rparr>"

subsection \<open>The hub as seen by one request\<close>

text \<open>
  Errors follow the taxonomy of the specification; the code throws \<open>Error\<close> objects
  that differ in their message only. \<open>NetworkFailure\<close> is a rejected \<open>fetch\<close>, which
  includes the abort after \<open>requestTimeoutMs\<close>.
\<close>

datatype error =
    ValidationError string
  | NotFoundError string
  | RemoteError string nat string
  | NetworkFailure string
  | UnknownToolError string
  | TypeError string

datatype 'a http_reply =
    FetchRejected string
  | HttpStatus nat string
  | HttpOk 'a

record service_request =
  req_domain :: string
  req_service :: string
  req_data :: "(string \<times> string) list"
  req_entity_id :: "string option"
  req_area_id :: "string option"

text \<open>
  The hub is an external collaborator. One request sees it as a clock (\<open>Date.now()\<close>),
  the replies it will give to the next requests of each kind (each with the time it
  takes), and a record of what it was sent: the number of \<open>GET /api/states\<close> requests
  and the service calls posted. A request with no reply left is rejected.
\<close>

record hub =
  now :: int
  bulk_replies :: "(nat \<times> state_obj list http_reply) list"
  point_replies :: "(nat \<times> state_obj http_reply) list"
  post_replies :: "(nat \<times> unit http_reply) list"
  bulk_fetches :: nat
  point_fetches :: "string list"
  posted :: "service_request list"

definition next_reply :: "(nat \<times> 'a http_reply) list \<Rightarrow> (nat \<times> 'a http_reply) \<times> (nat \<times> 'a http_reply) list" where
  "next_reply rs = (case rs of [] \<Rightarrow> ((0, FetchRejected ''no reply''), []) | r # rest \<Rightarrow> (r, rest))"

text \<open>
  The body of the promise \<open>refreshInFlight\<close> from the reply on: a rejected fetch or a
  status that is not ok throws; otherwise the snapshot is replaced and the clock read.
\<close>

definition settle_refresh :: "state_obj list http_reply \<Rightarrow> int \<Rightarrow> ha_client \<Rightarrow> (error + unit) \<times> ha_client" where
  "settle_refresh reply t c =
     (case reply of
        FetchRejected msg \<Rightarrow> (Inl (NetworkFailure msg), c)
      | HttpStatus status body \<Rightarrow> (Inl (RemoteError ''Failed to fetch HA states'' status body), c)
      | HttpOk states \<Rightarrow> (Inr (), (indexStates states c)\<lparr>lastStatesRefreshAt := t\<rparr>))"

text \<open>
  \<open>refreshStates\<close> as one request runs it. When no fetch is in flight it issues one;
  when one is in flight it returns that promise. Either way the request goes on when the
  promise has settled: the next bulk reply has arrived, the body of the promise has run,
  and the \<open>finally\<close> of the call that issued the fetch has cleared \<open>refreshInFlight\<close>.
\<close>

definition refreshStates :: "bool \<Rightarrow> hub \<times> ha_client \<Rightarrow> (error + unit) \<times> hub \<times> ha_client" where
  "refreshStates force w =
     (let (h, c) = w;
          stale = (now h - lastStatesRefreshAt c > statesTtlMs c)
      in if \<not> force \<and> \<not> stale then (Inr (), h, c)
         else
           let h1 = (if refreshInFlight c \<noteq> None then h
                     else h\<lparr>bulk_fetches := bulk_fetches h + 1\<rparr>);
               ((delay, reply), rest) = next_reply (bulk_replies h1);
               h2 = h1\<lparr>now := now h1 + int delay, bulk_replies := rest\<rparr>;
               (res, c1) = settle_refresh reply (now h2) c
           in (res, h2, c1\<lparr>refreshInFlight := None\<rparr>))"

definition ensureStatesFresh :: "hub \<times> ha_client \<Rightarrow> (error + unit) \<times> hub \<times> ha_client" where
  "ensureStatesFresh w = refreshStates False w"

subsection \<open>findEntities and resolveEntityId\<close>

definition project :: "entity \<Rightarrow> entity_view" where
  "project e = \<lparr>view_entity_id = entity_id e, view_name = name e, view_state = state e\<rparr>"

text \<open>The score \<open>findEntities\<close> gives an entity.\<close>

definition find_score :: "string \<Rightarrow> entity \<Rightarrow> int" where
  "find_score search e =
     scoreMatch (tokenize search) (tokens e) (entity_id e)
     + (if includes_str (toLowerCase (name e)) (toLowerCase search) then 2 else 0)"

text \<open>
  \<open>Array.prototype.sort\<close> is stable; with the comparator \<open>b.score - a.score\<close> it
  sorts by falling score and keeps the order of equal scores.
\<close>

definition sort_desc :: "('a \<times> int) list \<Rightarrow> ('a \<times> int) list" where
  "sort_desc xs = sort_key (\<lambda>r. - snd r) xs"

text \<open>The scored, filtered, sorted and cut list of \<open>findEntities\<close>, before the projection.\<close>

definition find_scored :: "string \<Rightarrow> entity list \<Rightarrow> (entity \<times> int) list" where
  "find_scored search entities =
     take 50 (sort_desc (filter (\<lambda>r. snd r > 0) (map (\<lambda>e. (e, find_score search e)) entities)))"

text \<open>\<open>findEntities\<close> from \<open>entitiesByDomain.get(domain) || []\<close> on.\<close>

definition find_in :: "ha_client \<Rightarrow> string \<Rightarrow> string option \<Rightarrow> entity_view list" where
  "find_in c domain search =
     (let entities = (case entitiesByDomain c domain of None \<Rightarrow> [] | Some l \<Rightarrow> l)
      in if \<not> truthy search then map project (take 50 entities)
         else map (\<lambda>r. project (fst r)) (find_scored (the search) entities))"

definition findEntities :: "string option \<Rightarrow> string option \<Rightarrow> hub \<times> ha_client \<Rightarrow> (error + entity_view list) \<times> hub \<times> ha_client" where
  "findEntities domain search w =
     (if \<not> truthy domain then (Inl (ValidationError ''domain is required''), w)
      else
        case ensureStatesFresh w of
          (Inl e, w1) \<Rightarrow> (Inl e, w1)
        | (Inr _, h1, c1) \<Rightarrow> (Inr (find_in c1 (the domain) search), h1, c1))"

text \<open>The score \<open>resolveEntityId\<close> gives an entity.\<close>

definition resolve_score :: "string \<Rightarrow> entity \<Rightarrow> int" where
  "resolve_score search e =
     (let score = scoreMatch (tokenize search) (tokens e) (entity_id e)
                  + (if includes_str (toLowerCase (name e)) (toLowerCase search) then 2 else 0)
      in if state e = ''unknown'' \<or> state e = ''unavailable'' then score - 10 else score)"

text \<open>The inner loop of \<open>resolveEntityId\<close> over the entities of one domain.\<close>

fun resolve_entities :: "string \<Rightarrow> entity list \<Rightarrow> (string \<times> int) list \<Rightarrow> (string \<times> int) list" where
  "resolve_entities search [] candidates = candidates"
| "resolve_entities search (e # es) candidates =
     resolve_entities search es
       (let score = resolve_score search e
        in if score > 0 then candidates @ [(entity_id e, score)] else candidates)"

text \<open>The outer loop over the domains.\<close>

fun resolve_domains :: "ha_client \<Rightarrow> string \<Rightarrow> string list \<Rightarrow> (string \<times> int) list \<Rightarrow> (string \<times> int) list" where
  "resolve_domains c search [] candidates = candidates"
| "resolve_domains c search (domain # ds) candidates =
     resolve_domains c search ds
       (resolve_entities search (case entitiesByDomain c domain of None \<Rightarrow> [] | Some l \<Rightarrow> l)
          candidates)"

text \<open>\<open>resolveEntityId\<close> from \<open>tokenize(search)\<close> on.\<close>

definition resolve_in :: "ha_client \<Rightarrow> string list \<Rightarrow> string \<Rightarrow> int \<Rightarrow> string option" where
  "resolve_in c domains search minScore =
     (case sort_desc (resolve_domains c search domains []) of
        [] \<Rightarrow> None
      | best # _ \<Rightarrow> if snd best < minScore then None else Some (fst best))"

definition resolveEntityId :: "string list \<Rightarrow> string option \<Rightarrow> int \<Rightarrow> hub \<times> ha_client \<Rightarrow> (error + string option) \<times> hub \<times> ha_client" where
  "resolveEntityId domains search minScore w =
     (if length domains = 0 then (Inr None, w)
      else if \<not> truthy search then (Inr None, w)
      else
        case ensureStatesFresh w of
          (Inl e, w1) \<Rightarrow> (Inl e, w1)
        | (Inr _, h1, c1) \<Rightarrow> (Inr (resolve_in c1 domains (the search) minScore), h1, c1))"

subsection \<open>getEntityState, callService, executeTool, getEntitySummary\<close>

definition getEntityState :: "string option \<Rightarrow> hub \<times> ha_client \<Rightarrow> (error + state_obj) \<times> hub \<times> ha_client" where
  "getEntityState eid w =
     (if \<not> truthy eid then (Inl (ValidationError ''entity_id is required''), w)
      else
        case ensureStatesFresh w of
          (Inl e, w1) \<Rightarrow> (Inl e, w1)
        | (Inr _, h1, c1) \<Rightarrow>
            (case statesByEntityId c1 (the eid) of
               Some cached \<Rightarrow> (Inr cached, h1, c1)
             | None \<Rightarrow>
                 (case refreshStates True (h1, c1) of
                    (Inl e, w2) \<Rightarrow> (Inl e, w2)
                  | (Inr _, h2, c2) \<Rightarrow>
                      (case statesByEntityId c2 (the eid) of
                         Some cachedAfter \<Rightarrow> (Inr cachedAfter, h2, c2)
                       | None \<Rightarrow>
                           (let ((delay, reply), rest) = next_reply (point_replies h2);
                                h3 = h2\<lparr>now := now h2 + int delay, point_replies := rest,
                                        point_fetches := point_fetches h2 @ [the eid]\<rparr>
                            in case reply of
                                 FetchRejected msg \<Rightarrow> (Inl (NetworkFailure msg), h3, c2)
                               | HttpStatus status body \<Rightarrow>
                                   (Inl (RemoteError ''Failed to get state'' status body), h3, c2)
                               | HttpOk s \<Rightarrow> (Inr s, h3, c2))))))"

text \<open>\<open>target?.entity_id\<close> and \<open>target?.area_id\<close>\<close>

definition target_id :: "target option \<Rightarrow> string option" where
  "target_id t = (case t of None \<Rightarrow> None | Some x \<Rightarrow> target_entity_id x)"

definition target_area :: "target option \<Rightarrow> string option" where
  "target_area t = (case t of None \<Rightarrow> None | Some x \<Rightarrow> target_area_id x)"

text \<open>The request \<open>callService\<close> submits, from \<open>serviceData\<close> on.\<close>

definition post_service :: "string \<Rightarrow> string \<Rightarrow> target option \<Rightarrow> (string \<times> string) list option \<Rightarrow> hub \<times> ha_client \<Rightarrow> (error + string) \<times> hub \<times> ha_client" where
  "post_service domain service tgt data w =
     (let (h, c) = w;
          serviceData =
            \<lparr>req_domain = domain, req_service = service,
             req_data = (case data of None \<Rightarrow> [] | Some d \<Rightarrow> d),
             req_entity_id = (if truthy (target_id tgt) then target_id tgt else None),
             req_area_id = (if truthy (target_area tgt) then target_area tgt else None)\<rparr>;
          ((delay, reply), rest) = next_reply (post_replies h);
          h1 = h\<lparr>now := now h + int delay, post_replies := rest,
                 posted := posted h @ [serviceData]\<rparr>
      in case reply of
           FetchRejected msg \<Rightarrow> (Inl (NetworkFailure msg), h1, c)
         | HttpStatus status body \<Rightarrow> (Inl (RemoteError ''Failed to call service'' status body), h1, c)
         | HttpOk _ \<Rightarrow> (Inr (''Called '' @ domain @ ''.'' @ service), h1, c))"

definition callService :: "string option \<Rightarrow> string option \<Rightarrow> target option \<Rightarrow> (string \<times> string) list option \<Rightarrow> hub \<times> ha_client \<Rightarrow> (error + string) \<times> hub \<times> ha_client" where
  "callService domain service tgt data w =
     (if \<not> truthy domain then (Inl (ValidationError ''domain is required''), w)
      else if \<not> truthy service then (Inl (ValidationError ''service is required''), w)
      else if truthy (target_id tgt) then
        (case ensureStatesFresh w of
           (Inl e, w1) \<Rightarrow> (Inl e, w1)
         | (Inr _, h1, c1) \<Rightarrow>
             (if statesByEntityId c1 (the (target_id tgt)) = None then
                (case refreshStates True (h1, c1) of
                   (Inl e, w2) \<Rightarrow> (Inl e, w2)
                 | (Inr _, h2, c2) \<Rightarrow>
                     (if statesByEntityId c2 (the (target_id tgt)) = None
                      then (Inl (NotFoundError (the (target_id tgt))), h2, c2)
                      else post_service (the domain) (the service) tgt data (h2, c2)))
              else post_service (the domain) (the service) tgt data (h1, c1)))
      else post_service (the domain) (the service) tgt data w)"

definition getEntitySummary :: "ha_client \<Rightarrow> string \<Rightarrow> entity_summary option" where
  "getEntitySummary c eid =
     (case statesByEntityId c eid of
        None \<Rightarrow> None
      | Some s \<Rightarrow>
          Some \<lparr>sum_entity_id = eid,
                sum_name = or_else (attr_friendly_name s) eid,
                sum_domain = domain_of eid,
                sum_attributes = attrs_or_empty s\<rparr>)"

text \<open>What a tool returns: the value that \<open>JSON.stringify\<close> is applied to.\<close>

datatype tool_value =
    Entities "entity_view list"
  | StateValue state_obj
  | ServiceOk string

definition lift_result :: "('a \<Rightarrow> tool_value) \<Rightarrow> (error + 'a) \<times> hub \<times> ha_client \<Rightarrow> (error + tool_value) \<times> hub \<times> ha_client" where
  "lift_result f r = (case r of (Inl e, w) \<Rightarrow> (Inl e, w) | (Inr v, w) \<Rightarrow> (Inr (f v), w))"

text \<open>
  \<open>executeTool\<close>. With no input object, \<open>findEntities\<close> takes its default \<open>{}\<close>, and
  reading \<open>input.entity_id\<close> or destructuring the input throws a \<open>TypeError\<close>.
\<close>

definition executeTool :: "string \<Rightarrow> tool_input option \<Rightarrow> hub \<times> ha_client \<Rightarrow> (error + tool_value) \<times> hub \<times> ha_client" where
  "executeTool toolName inp w =
     (if toolName = ''find_entities'' then
        (case inp of
           None \<Rightarrow> lift_result Entities (findEntities None None w)
         | Some i \<Rightarrow> lift_result Entities (findEntities (in_domain i) (in_search i) w))
      else if toolName = ''get_entity_state'' then
        (case inp of
           None \<Rightarrow> (Inl (TypeError ''input is undefined''), w)
         | Some i \<Rightarrow> lift_result StateValue (getEntityState (in_entity_id i) w))
      else if toolName = ''call_service'' then
        (case inp of
           None \<Rightarrow> (Inl (TypeError ''input is undefined''), w)
         | Some i \<Rightarrow>
             lift_result ServiceOk (callService (in_domain i) (in_service i) (in_target i) (in_data i) w))
      else (Inl (UnknownToolError toolName), w))"

section \<open>Plan cache (intentCache.js)\<close>

text \<open>
  A JavaScript \<open>Map\<close> keeps its entries in insertion order: a list of key-value pairs
  with distinct keys, the oldest first. \<open>set\<close> on a key that is present replaces the
  value in place; on a new key it appends.
\<close>

type_synonym ('k, 'v) jsmap = "('k \<times> 'v) list"

definition map_has :: "'k \<Rightarrow> ('k, 'v) jsmap \<Rightarrow> bool" where
  "map_has k m = (k \<in> fst ` set m)"

definition map_delete :: "'k \<Rightarrow> ('k, 'v) jsmap \<Rightarrow> ('k, 'v) jsmap" where
  "map_delete k m = filter (\<lambda>p. fst p \<noteq> k) m"

fun map_set :: "'k \<Rightarrow> 'v \<Rightarrow> ('k, 'v) jsmap \<Rightarrow> ('k, 'v) jsmap" where
  "map_set k v [] = [(k, v)]"
| "map_set k v (p # ps) = (if fst p = k then (k, v) # ps else p # map_set k v ps)"

text \<open>
  Times and durations are whole milliseconds (\<open>int\<close>); \<open>None\<close> is \<open>null\<close>.
\<close>

record 'v entry =
  entry_value :: 'v
  expiresAt :: "int option"

record 'v IntentCache =
  maxEntries :: int
  defaultTtlMs :: "int option"
  cmap :: "(string, 'v entry) jsmap"

definition new_IntentCache :: "int \<Rightarrow> int option \<Rightarrow> 'v IntentCache" where
  "new_IntentCache maxE ttl = \<lparr>maxEntries = maxE, defaultTtlMs = ttl, cmap = []\<rparr>"

text \<open>\<open>get(key)\<close> at the time \<open>t\<close> that \<open>Date.now()\<close> returns; \<open>None\<close> is \<open>null\<close>.\<close>

definition cache_get :: "'v IntentCache \<Rightarrow> string \<Rightarrow> int \<Rightarrow> 'v option \<times> 'v IntentCache" where
  "cache_get c key t =
     (case map_of (cmap c) key of
        None \<Rightarrow> (None, c)
      | Some e \<Rightarrow>
          (if expiresAt e \<noteq> None \<and> t > the (expiresAt e)
           then (None, c\<lparr>cmap := map_delete key (cmap c)\<rparr>)
           else (Some (entry_value e), c\<lparr>cmap := map_set key e (map_delete key (cmap c))\<rparr>)))"

text \<open>
  The eviction loop of \<open>set\<close>. On an empty map \<open>keys().next().value\<close> is
  \<open>undefined\<close> and \<open>delete\<close> removes nothing, so the loop does not end when
  \<open>maxEntries\<close> is negative: the loop is a partial function, \<open>None\<close> when it runs forever.
\<close>

partial_function (option) evict :: "int \<Rightarrow> (string, 'v) jsmap \<Rightarrow> (string, 'v) jsmap option" where
  "evict maxE m =
     (if int (length m) > maxE
      then evict maxE (case m of [] \<Rightarrow> m | oldest # _ \<Rightarrow> map_delete (fst oldest) m)
      else Some m)"

text \<open>
  The two constants at the head of \<open>set(key, value, { ttlMs })\<close>, at time \<open>t\<close>;
  \<open>ttlMs = None\<close> when the argument is not a number.
\<close>

definition effectiveTtlMs :: "'v IntentCache \<Rightarrow> int option \<Rightarrow> int option" where
  "effectiveTtlMs c ttlMs = (case ttlMs of Some n \<Rightarrow> Some n | None \<Rightarrow> defaultTtlMs c)"

definition expiry :: "int option \<Rightarrow> int \<Rightarrow> int option" where
  "expiry ttl t = (case ttl of None \<Rightarrow> None | Some n \<Rightarrow> Some (t + n))"

definition cache_set :: "'v IntentCache \<Rightarrow> string \<Rightarrow> 'v \<Rightarrow> int option \<Rightarrow> int \<Rightarrow> 'v IntentCache option" where
  "cache_set c key v ttlMs t =
     (let expires = expiry (effectiveTtlMs c ttlMs) t;
          m1 = (if map_has key (cmap c) then map_delete key (cmap c) else cmap c);
          m2 = map_set key \<lparr>entry_value = v, expiresAt = expires\<rparr> m1
      in case evict (maxEntries c) m2 of
           None \<Rightarrow> None
         | Some m3 \<Rightarrow> Some (c\<lparr>cmap := m3\<rparr>))"

definition cache_delete :: "'v IntentCache \<Rightarrow> string \<Rightarrow> 'v IntentCache" where
  "cache_delete c key = c\<lparr>cmap := map_delete key (cmap c)\<rparr>"

text \<open>A sequence of operations on the cache, each with the time it runs at.\<close>

datatype 'v cache_op =
    Get string int
  | Set string 'v "int option" int
  | Delete string

fun cache_run :: "'v cache_op list \<Rightarrow> 'v IntentCache \<Rightarrow> 'v IntentCache option" where
  "cache_run [] c = Some c"
| "cache_run (Get key t # ops) c = cache_run ops (snd (cache_get c key t))"
| "cache_run (Set key v ttlMs t # ops) c =
     (case cache_set c key v ttlMs t of None \<Rightarrow> None | Some c' \<Rightarrow> cache_run ops c')"
| "cache_run (Delete key # ops) c = cache_run ops (cache_delete c key)"

section \<open>Plans (voicePlan.js)\<close>

record plan =
  plan_version :: nat
  plan_toolCalls :: "tool_call list"

record tool_result =
  tr_name :: string
  tr_input :: "tool_input option"
  tr_result :: tool_value

text \<open>
  \<open>formatStateForSpeech\<close> on the result of a state read. On a result that is not a
  state object every property read is \<open>undefined\<close>.
\<close>

definition formatStateForSpeech :: "tool_value \<Rightarrow> string" where
  "formatStateForSpeech r =
     (case r of
        StateValue stateObj \<Rightarrow>
          (let name = or_else (attr_friendly_name stateObj) (so_entity_id stateObj);
               unit = or_else (attr_unit stateObj) [];
               state = so_state stateObj
           in if unit \<noteq> [] then name @ '' is '' @ state @ unit @ ''.''
              else name @ '' is '' @ state @ ''.'')
      | _ \<Rightarrow> ''undefined is undefined.'')"

definition isCacheableToolCall :: "tool_call \<Rightarrow> bool" where
  "isCacheableToolCall toolCall =
     (if tc_name toolCall = [] \<or> tc_input toolCall = None then False
      else if tc_name toolCall = ''call_service'' then
        (if \<not> truthy (input_target_entity_id (tc_input toolCall)) then False
         else if input_service (tc_input toolCall) = Some ''toggle'' then False
         else True)
      else if tc_name toolCall = ''get_entity_state'' then
        truthy (input_entity_id (tc_input toolCall))
      else False)"

definition buildPlanFromToolUses :: "tool_call list \<Rightarrow> plan option" where
  "buildPlanFromToolUses toolUses =
     (let concreteCalls = filter isCacheableToolCall toolUses in
      if length concreteCalls = 0 then None
      else Some \<lparr>plan_version = 1,
                 plan_toolCalls =
                   map (\<lambda>t. \<lparr>tc_name = tc_name t, tc_input = tc_input t\<rparr>) concreteCalls\<rparr>)"

definition renderResponseFromToolResults :: "ha_client \<Rightarrow> tool_result list \<Rightarrow> string" where
  "renderResponseFromToolResults ha toolResults =
     (if toolResults = [] then ''Done.''
      else
        let last = last toolResults in
        if tr_name last = ''call_service'' then
          (let entityId = input_target_entity_id (tr_input last);
               summary = (if truthy entityId then getEntitySummary ha (the entityId) else None);
               service = input_service (tr_input last)
           in if summary \<noteq> None \<and> (service = Some ''turn_on'' \<or> service = Some ''turn_off'')
              then (if service = Some ''turn_on'' then ''Turned on'' else ''Turned off'')
                   @ '' '' @ sum_name (the summary) @ ''.''
              else ''Done.'')
        else if tr_name last = ''get_entity_state'' then formatStateForSpeech (tr_result last)
        else ''Done.'')"

section \<open>The tool-use loop (index.js)\<close>

text \<open>
  A response of the model: its stop reason and its content blocks. A tool-use block has
  an id, the name of the tool and the input.
\<close>

datatype block =
    TextBlock string
  | ToolUseBlock string string "tool_input option"

record response =
  stop_reason :: string
  content :: "block list"

text \<open>
  A tool result sent back to the model. Its content is the value (or the error) that
  the code passes through \<open>JSON.stringify\<close>.
\<close>

record tool_result_block =
  tool_use_id :: string
  result_content :: "error + tool_value"
  is_error :: bool

datatype message =
    UserText string
  | Assistant "block list"
  | UserResults "tool_result_block list"

text \<open>
  The model is an external collaborator: \<open>anthropic.messages.create\<close> is a function
  of the number of the call within the request and of the messages sent, which returns a
  response or throws (\<open>Inl\<close>).
\<close>

type_synonym llm = "nat \<Rightarrow> message list \<Rightarrow> string + response"

record loop_state =
  ls_world :: "hub \<times> ha_client"
  ls_messages :: "message list"
  ls_toolUsesSeen :: "tool_call list"
  ls_calls :: nat

definition is_tool_use :: "block \<Rightarrow> bool" where
  "is_tool_use b = (case b of ToolUseBlock _ _ _ \<Rightarrow> True | TextBlock _ \<Rightarrow> False)"

text \<open>
  The \<open>for\<close> loop over the tool-use blocks of one response: every call is recorded in
  \<open>toolUsesSeen\<close> and executed; an error is caught and returned to the model as an
  error result.
\<close>

fun run_tool_uses ::
  "block list \<Rightarrow> (hub \<times> ha_client) \<times> tool_call list \<times> tool_result_block list
     \<Rightarrow> (hub \<times> ha_client) \<times> tool_call list \<times> tool_result_block list" where
  "run_tool_uses [] acc = acc"
| "run_tool_uses (TextBlock _ # bs) acc = run_tool_uses bs acc"
| "run_tool_uses (ToolUseBlock tid toolName inp # bs) (w, seen, results) =
     (case executeTool toolName inp w of
        (Inr v, w') \<Rightarrow>
          run_tool_uses bs
            (w', seen @ [\<lparr>tc_name = toolName, tc_input = inp\<rparr>],
             results @ [\<lparr>tool_use_id = tid, result_content = Inr v, is_error = False\<rparr>])
      | (Inl e, w') \<Rightarrow>
          run_tool_uses bs
            (w', seen @ [\<lparr>tc_name = toolName, tc_input = inp\<rparr>],
             results @ [\<lparr>tool_use_id = tid, result_content = Inl e, is_error = True\<rparr>]))"

text \<open>The body of the \<open>while\<close> loop up to the next call of the model.\<close>

definition run_round :: "loop_state \<Rightarrow> response \<Rightarrow> loop_state" where
  "run_round st resp =
     (case run_tool_uses (filter is_tool_use (content resp))
             (ls_world st, ls_toolUsesSeen st, []) of
        (w, seen, toolResults) \<Rightarrow>
          st\<lparr>ls_world := w, ls_toolUsesSeen := seen,
             ls_messages := ls_messages st @ [Assistant (content resp), UserResults toolResults]\<rparr>)"

text \<open>
  \<open>while (response.stop_reason === 'tool_use')\<close>. The loop has no other exit than
  the stop reason and a throwing call of the model, so it is a partial function:
  \<open>None\<close> when it runs forever.
\<close>

partial_function (option) tool_loop ::
  "llm \<Rightarrow> loop_state \<Rightarrow> response \<Rightarrow> (string + response \<times> loop_state) option" where
  "tool_loop create st resp =
     (if stop_reason resp = ''tool_use'' then
        (case create (ls_calls (run_round st resp)) (ls_messages (run_round st resp)) of
           Inl err \<Rightarrow> Some (Inl err)
         | Inr next_resp \<Rightarrow>
             tool_loop create ((run_round st resp)\<lparr>ls_calls := Suc (ls_calls (run_round st resp))\<rparr>)
               next_resp)
      else Some (Inr (resp, st)))"

text \<open>\<open>response.content.find(block => block.type === 'text')?.text || 'Done.'\<close>\<close>

definition response_text :: "response \<Rightarrow> string" where
  "response_text resp =
     (case filter (\<lambda>b. \<not> is_tool_use b) (content resp) of
        TextBlock txt # _ \<Rightarrow> (if txt = [] then ''Done.'' else txt)
      | _ \<Rightarrow> ''Done.'')"

text \<open>
  \<open>processVoiceCommand\<close>: the first call of the model, the loop, the reply text and the
  plan stored in the cache. \<open>Date.now()\<close> in \<open>intentCache.set\<close> is the clock of the
  hub record.
\<close>

definition processVoiceCommand ::
  "llm \<Rightarrow> string \<Rightarrow> string \<Rightarrow> (hub \<times> ha_client) \<times> plan IntentCache
     \<Rightarrow> (string + string \<times> (hub \<times> ha_client) \<times> plan IntentCache) option" where
  "processVoiceCommand create userText normalized s =
     (case s of (w, intentCache) \<Rightarrow>
        (case create 0 [UserText userText] of
           Inl err \<Rightarrow> Some (Inl err)
         | Inr resp0 \<Rightarrow>
             (case tool_loop create
                     \<lparr>ls_world = w, ls_messages = [UserText userText], ls_toolUsesSeen = [],
                      ls_calls = 1\<rparr> resp0 of
                None \<Rightarrow> None
              | Some (Inl err) \<Rightarrow> Some (Inl err)
              | Some (Inr (resp, st)) \<Rightarrow>
                  (case buildPlanFromToolUses (ls_toolUsesSeen st) of
                     None \<Rightarrow> Some (Inr (response_text resp, ls_world st, intentCache))
                   | Some plan \<Rightarrow>
                       (if normalized = [] then
                          Some (Inr (response_text resp, ls_world st, intentCache))
                        else
                          (case cache_set intentCache normalized plan None
                                  (now (fst (ls_world st))) of
                             None \<Rightarrow> None
                           | Some cache' \<Rightarrow>
                               Some (Inr (response_text resp, ls_world st, cache'))))))))"

text \<open>
  What the model does at its \<open>j\<close>-th call, whatever the messages: it asks for tools, or
  it ends the loop (by another stop reason or by throwing).
\<close>

definition answers_tool_use :: "llm \<Rightarrow> nat \<Rightarrow> bool" where
  "answers_tool_use create j =
     (\<forall>msgs. \<exists>r. create j msgs = Inr r \<and> stop_reason r = ''tool_use'')"

definition answers_stop :: "llm \<Rightarrow> nat \<Rightarrow> bool" where
  "answers_stop create j =
     (\<forall>msgs. case create j msgs of Inl _ \<Rightarrow> True | Inr r \<Rightarrow> stop_reason r \<noteq> ''tool_use'')"

section \<open>Concurrent calls of refreshStates\<close>

text \<open>
  JavaScript runs one piece of code at a time and switches only at an \<open>await\<close>.
  Between its awaits \<open>refreshStates\<close> has three pieces, and any number of calls can
  be between two of them:
  \<^item> the call up to its first await: the freshness check, the check of
    \<open>refreshInFlight\<close>, and for the call that finds it empty the creation of the promise
    whose body issues the hub request;
  \<^item> the rest of the body of that promise once the hub has replied: it throws, or it
    replaces the snapshot and reads the clock; the promise is settled;
  \<^item> the continuation of a call that awaits the promise, once it has settled: the call
    that created the promise runs its \<open>finally\<close> and clears \<open>refreshInFlight\<close>; a
    call that returned the promise of another call ends with its outcome.
  A promise is its index in the list of the promises created so far; \<open>None\<close> there
  is a pending promise, that is, a hub request without reply. Calls are numbered in the
  order they are made.
\<close>

record sys =
  client :: ha_client
  promises :: "(error + unit) option list"
  fetches :: nat
  calls :: nat
  waiting :: "nat \<rightharpoonup> nat \<times> bool"
  returned :: "nat \<rightharpoonup> error + unit"

definition init_sys :: "int \<Rightarrow> sys" where
  "init_sys ttl =
     \<lparr>client = createHAClient ttl, promises = [], fetches = 0, calls = 0,
      waiting = Map.empty, returned = Map.empty\<rparr>"

datatype event =
    Call bool int
  | Settle nat "state_obj list http_reply" int
  | Resume nat

text \<open>
  \<open>Call force t\<close>: \<open>refreshStates({ force })\<close> is called when \<open>Date.now()\<close> is \<open>t\<close>.
  \<open>Settle p reply t\<close>: the hub request of promise \<open>p\<close> gets its reply and the body of
  the promise runs to its end, reading the clock as \<open>t\<close>. \<open>Resume n\<close>: call number
  \<open>n\<close> goes on behind its await. In \<open>waiting\<close> a call is kept with the promise it
  awaits and whether it created it.
\<close>

fun step :: "event \<Rightarrow> sys \<Rightarrow> sys" where
  "step (Call force t) s =
     (let c = client s;
          stale = (t - lastStatesRefreshAt c > statesTtlMs c)
      in if \<not> force \<and> \<not> stale
         then s\<lparr>calls := Suc (calls s), returned := (returned s)(calls s \<mapsto> Inr ())\<rparr>
         else
           (case refreshInFlight c of
              Some p \<Rightarrow>
                s\<lparr>calls := Suc (calls s), waiting := (waiting s)(calls s \<mapsto> (p, False))\<rparr>
            | None \<Rightarrow>
                s\<lparr>client := c\<lparr>refreshInFlight := Some (length (promises s))\<rparr>,
                  promises := promises s @ [None],
                  fetches := Suc (fetches s),
                  calls := Suc (calls s),
                  waiting := (waiting s)(calls s \<mapsto> (length (promises s), True))\<rparr>))"
| "step (Settle p reply t) s =
     (if p < length (promises s) \<and> promises s ! p = None
      then (case settle_refresh reply t (client s) of
              (res, c) \<Rightarrow> s\<lparr>client := c, promises := (promises s)[p := Some res]\<rparr>)
      else s)"
| "step (Resume n) s =
     (case waiting s n of
        None \<Rightarrow> s
      | Some (p, creator) \<Rightarrow>
          (if p < length (promises s) then
             (case promises s ! p of
                None \<Rightarrow> s
              | Some res \<Rightarrow>
                  s\<lparr>client := (if creator then (client s)\<lparr>refreshInFlight := None\<rparr>
                                else client s),
                    waiting := (waiting s)(n := None),
                    returned := (returned s)(n \<mapsto> res)\<rparr>)
           else s))"

definition run :: "event list \<Rightarrow> sys \<Rightarrow> sys" where
  "run evs s = fold step evs s"

text \<open>The number of hub requests that have not got their reply.\<close>

definition outstanding :: "sys \<Rightarrow> nat" where
  "outstanding s = length (filter (\<lambda>x. x = None) (promises s))"

text \<open>
  What holds in every state that a sequence of events leads to, in terms of the list of
  promises, \<open>refreshInFlight\<close>, the waiting calls and the next call number: a
  pending promise is the one in \<open>refreshInFlight\<close>; the call that created the promise
  in \<open>refreshInFlight\<close> is waiting for it, and no other creator is waiting; the calls
  that wait have numbers below the next number.
\<close>

definition flight_ok ::
  "(error + unit) option list \<Rightarrow> nat option \<Rightarrow> (nat \<rightharpoonup> nat \<times> bool) \<Rightarrow> nat \<Rightarrow> bool" where
  "flight_ok ps g w k =
     ((\<forall>p. p < length ps \<and> ps ! p = None \<longrightarrow> g = Some p)
      \<and> (\<forall>n p. w n = Some (p, True) \<longrightarrow> g = Some p)
      \<and> (\<forall>n m p q. w n = Some (p, True) \<and> w m = Some (q, True) \<longrightarrow> n = m)
      \<and> (\<forall>p. g = Some p \<longrightarrow> p < length ps \<and> (\<exists>n. w n = Some (p, True)))
      \<and> (\<forall>n. w n \<noteq> None \<longrightarrow> n < k))"

definition flight_inv :: "sys \<Rightarrow> bool" where
  "flight_inv s = flight_ok (promises s) (refreshInFlight (client s)) (waiting s) (calls s)"

section \<open>Word runs\<close>

text \<open>
  The maximal runs of word characters of a string, in order: the words that \<open>\b\<close>
  delimits. \<open>wr cur s\<close> reads \<open>s\<close> with the run \<open>cur\<close> open at its left end.
\<close>

definition emit :: "string \<Rightarrow> string list" where
  "emit cur = (if cur = [] then [] else [cur])"

fun wr :: "string \<Rightarrow> string \<Rightarrow> string list" where
  "wr cur [] = emit cur"
| "wr cur (c # cs) = (if is_word_char c then wr (cur @ [c]) cs else emit cur @ wr [] cs)"

definition runs :: "string \<Rightarrow> string list" where
  "runs s = wr [] s"

text \<open>A literal word of a pattern \<open>\bW\b\<close>: not empty, word characters only.\<close>

definition wordlike :: "string \<Rightarrow> bool" where
  "wordlike w = (w \<noteq> [] \<and> (\<forall>c \<in> set w. is_word_char c))"

text \<open>
  A string as the last two steps of the normalizer leave it: its only white space is
  single spaces between other characters.
\<close>

fun tidy :: "string \<Rightarrow> bool" where
  "tidy [] = True"
| "tidy [c] = (is_space c \<longrightarrow> c = CHR '' '')"
| "tidy (a # b # cs) = ((is_space a \<longrightarrow> a = CHR '' '' \<and> \<not> is_space b) \<and> tidy (b # cs))"

text \<open>A character that the first two steps of the normalizer leave as it is.\<close>

definition settled :: "char \<Rightarrow> bool" where
  "settled c = (lower_char c = c \<and> keep_normalize c)"

section \<open>Properties of entity scoring\<close>

lemma scoreLoop_sum:
  "scoreLoop q toks eid acc =
     acc + (\<Sum>token\<leftarrow>q. (if token \<in> set toks then 3 else 0)
                         + (if includes_str eid token then 1 else 0))"
  by (induction q arbitrary: acc) (simp_all add: Let_def)

lemma scoreMatch_sum:
  "scoreMatch q toks eid =
     (\<Sum>token\<leftarrow>q. (if token \<in> set toks then 3 else 0)
                   + (if includes_str eid token then 1 else 0))"
  by (cases q) (simp_all add: scoreMatch_def scoreLoop_sum del: scoreLoop.simps)

lemma sort_desc_sorted: "sorted_wrt (\<lambda>a b. snd b \<le> snd a) (sort_desc xs)"
proof -
  have "sorted (map (\<lambda>r. - snd r) (sort_desc xs))"
    by (simp add: sort_desc_def)
  then show ?thesis
    by (simp add: sorted_map) 
qed

lemma sort_desc_set: "set (sort_desc xs) = set xs"
  by (simp add: sort_desc_def)

lemma sort_desc_length: "length (sort_desc xs) = length xs"
  by (simp add: sort_desc_def)

lemma take_sorted_missing:
  assumes "sorted_wrt R xs" and "x \<in> set xs" and "x \<notin> set (take n xs)"
  shows "length (take n xs) = n \<and> (\<forall>r \<in> set (take n xs). R r x)"
proof -
  have split: "xs = take n xs @ drop n xs" by simp
  with assms(2,3) have x: "x \<in> set (drop n xs)"
    by (metis Un_iff set_append)
  then have "n < length xs"
    by (cases "n < length xs") auto
  moreover have "\<forall>r \<in> set (take n xs). R r x"
    using assms(1) x split by (metis sorted_wrt_append)
  ultimately show ?thesis by simp
qed

lemma find_scored_props:
  "length (find_scored search es) \<le> 50"
  "r \<in> set (find_scored search es) \<Longrightarrow>
     fst r \<in> set es \<and> snd r = find_score search (fst r) \<and> 0 < snd r"
  "sorted_wrt (\<lambda>a b. snd b \<le> snd a) (find_scored search es)"
proof -
  let ?L = "sort_desc (filter (\<lambda>r. snd r > 0) (map (\<lambda>e. (e, find_score search e)) es))"
  show "length (find_scored search es) \<le> 50"
    by (simp add: find_scored_def)
  show "fst r \<in> set es \<and> snd r = find_score search (fst r) \<and> 0 < snd r"
    if "r \<in> set (find_scored search es)"
  proof -
    from that have "r \<in> set ?L"
      unfolding find_scored_def by (rule in_set_takeD)
    then show ?thesis
      by (auto simp: sort_desc_set)
  qed
  show "sorted_wrt (\<lambda>a b. snd b \<le> snd a) (find_scored search es)"
    unfolding find_scored_def by (rule sorted_wrt_take) (rule sort_desc_sorted)
qed

lemma find_scored_complete:
  assumes "e \<in> set es" and "0 < find_score search e"
    and "(e, find_score search e) \<notin> set (find_scored search es)"
  shows "length (find_scored search es) = 50
         \<and> (\<forall>r \<in> set (find_scored search es). find_score search e \<le> snd r)"
proof -
  let ?L = "sort_desc (filter (\<lambda>r. snd r > 0) (map (\<lambda>e. (e, find_score search e)) es))"
  have "(e, find_score search e) \<in> set ?L"
    using assms(1,2) by (auto simp: sort_desc_set)
  from take_sorted_missing [OF sort_desc_sorted this, of 50] assms(3)
  show ?thesis by (simp add: find_scored_def)
qed

text \<open>
  C1, as the code has it. \<open>findEntities\<close> and \<open>resolveEntityId\<close> share the score of the
  token matches (3 for a query token among the entity's tokens, 1 more for a query token
  inside the entity id) and the bonus of 2 for the whole phrase inside the name; only
  \<open>resolveEntityId\<close> takes 10 off for an entity whose state is \<open>unknown\<close> or
  \<open>unavailable\<close>, so the two scores are equal for every other entity and differ by 10
  for these. \<open>findEntities\<close> with a search keeps the entities of the domain whose score
  is strictly positive, sorted by falling score, the first 50 of them.
\<close>

theorem find_entities_scoring:
  "find_score search e =
     (\<Sum>token\<leftarrow>tokenize search. (if token \<in> set (tokens e) then 3 else 0)
                                 + (if includes_str (entity_id e) token then 1 else 0))
     + (if includes_str (toLowerCase (name e)) (toLowerCase search) then 2 else 0)
   \<and> resolve_score search e =
       find_score search e
       - (if state e = ''unknown'' \<or> state e = ''unavailable'' then 10 else 0)
   \<and> (truthy query \<longrightarrow>
        find_in c domain query =
          map (\<lambda>r. project (fst r))
            (find_scored (the query)
               (case entitiesByDomain c domain of None \<Rightarrow> [] | Some l \<Rightarrow> l)))
   \<and> length (find_scored search es) \<le> 50
   \<and> (\<forall>r \<in> set (find_scored search es).
         fst r \<in> set es \<and> snd r = find_score search (fst r) \<and> 0 < snd r)
   \<and> sorted_wrt (\<lambda>a b. snd b \<le> snd a) (find_scored search es)
   \<and> (\<forall>x \<in> set es. 0 < find_score search x
         \<and> (x, find_score search x) \<notin> set (find_scored search es)
         \<longrightarrow> length (find_scored search es) = 50
             \<and> (\<forall>r \<in> set (find_scored search es). find_score search x \<le> snd r))"
proof -
  have a: "find_score search e =
     (\<Sum>token\<leftarrow>tokenize search. (if token \<in> set (tokens e) then 3 else 0)
                                 + (if includes_str (entity_id e) token then 1 else 0))
     + (if includes_str (toLowerCase (name e)) (toLowerCase search) then 2 else 0)"
    by (simp only: find_score_def scoreMatch_sum)
  have b: "resolve_score search e =
       find_score search e
       - (if state e = ''unknown'' \<or> state e = ''unavailable'' then 10 else 0)"
    by (simp add: resolve_score_def find_score_def Let_def)
  have c: "truthy query \<longrightarrow>
        find_in c domain query =
          map (\<lambda>r. project (fst r))
            (find_scored (the query)
               (case entitiesByDomain c domain of None \<Rightarrow> [] | Some l \<Rightarrow> l))"
    by (simp add: find_in_def)
  from a b c find_scored_props [where search = search and es = es]
    find_scored_complete [where search = search and es = es]
  show ?thesis by blast
qed

theorem find_entities_scoring_witness:
  "resolve_score ''pool pump''
     \<lparr>entity_id = ''switch.pool_pump'', name = ''Pool Pump'', state = ''unknown'',
      attributes = \<lparr>friendly_name = Some ''Pool Pump'', unit_of_measurement = None\<rparr>,
      tokens = [''pool'', ''pump'']\<rparr>
   = find_score ''pool pump''
     \<lparr>entity_id = ''switch.pool_pump'', name = ''Pool Pump'', state = ''unknown'',
      attributes = \<lparr>friendly_name = Some ''Pool Pump'', unit_of_measurement = None\<rparr>,
      tokens = [''pool'', ''pump'']\<rparr> - 10
   \<and> find_in (createHAClient 5000) ''switch'' (Some ''pool pump'') = []
   \<and> length (find_scored ''pool pump''
        (replicate 50
           \<lparr>entity_id = ''switch.pool_pump'', name = ''Pool Pump'', state = ''off'',
            attributes = \<lparr>friendly_name = Some ''Pool Pump'', unit_of_measurement = None\<rparr>,
            tokens = [''pool'', ''pump'']\<rparr>
         @ [\<lparr>entity_id = ''switch.pool_light'', name = ''Pool Light'', state = ''off'',
             attributes = \<lparr>friendly_name = Some ''Pool Light'', unit_of_measurement = None\<rparr>,
             tokens = [''pool'', ''light'']\<rparr>])) = 50
   \<and> 0 < find_score ''pool pump''
        \<lparr>entity_id = ''switch.pool_pump'', name = ''Pool Pump'', state = ''off'',
         attributes = \<lparr>friendly_name = Some ''Pool Pump'', unit_of_measurement = None\<rparr>,
         tokens = [''pool'', ''pump'']\<rparr>"
proof -
  let ?s = "''pool pump''"
  let ?U = "\<lparr>entity_id = ''switch.pool_pump'', name = ''Pool Pump'', state = ''unknown'',
      attributes = \<lparr>friendly_name = Some ''Pool Pump'', unit_of_measurement = None\<rparr>,
      tokens = [''pool'', ''pump'']\<rparr>"
  let ?E1 = "\<lparr>entity_id = ''switch.pool_pump'', name = ''Pool Pump'', state = ''off'',
            attributes = \<lparr>friendly_name = Some ''Pool Pump'', unit_of_measurement = None\<rparr>,
            tokens = [''pool'', ''pump'']\<rparr>"
  let ?E2 = "\<lparr>entity_id = ''switch.pool_light'', name = ''Pool Light'', state = ''off'',
             attributes = \<lparr>friendly_name = Some ''Pool Light'', unit_of_measurement = None\<rparr>,
             tokens = [''pool'', ''light'']\<rparr>"
  let ?es = "replicate 50 ?E1 @ [?E2]"
  note inst = find_entities_scoring [where search = ?s and e = ?U and query = "Some ?s"
      and c = "createHAClient 5000" and domain = "''switch''" and es = ?es]
  have s1: "find_score ?s ?E1 = 10" by code_simp
  have s2: "find_score ?s ?E2 = 4" by code_simp
  have "sort_desc (replicate 50 (?E1, 10::int) @ [(?E2, 4)]) = replicate 50 (?E1, 10) @ [(?E2, 4)]"
    unfolding sort_desc_def by (rule sort_key_id_if_sorted) (simp add: sorted_append)
  then have scored: "find_scored ?s ?es = replicate 50 (?E1, 10)"
    by (simp add: find_scored_def s1 s2)
  have missing: "?E2 \<in> set ?es \<and> 0 < find_score ?s ?E2
      \<and> (?E2, find_score ?s ?E2) \<notin> set (find_scored ?s ?es)"
    by (simp add: scored s2)
  have 1: "resolve_score ?s ?U = find_score ?s ?U - 10"
    using inst by simp
  have 2: "find_in (createHAClient 5000) ''switch'' (Some ?s) = []"
    using inst by (simp add: truthy_def createHAClient_def find_scored_def sort_desc_def)
  have 3: "length (find_scored ?s ?es) = 50"
    using inst missing by blast
  have "(?E1, 10) \<in> set (find_scored ?s ?es)"
    by (simp add: scored)
  from inst [THEN conjunct2, THEN conjunct2, THEN conjunct2, THEN conjunct2, THEN conjunct1,
      THEN bspec, OF this]
  have 4: "0 < find_score ?s ?E1"
    by simp
  from 1 2 3 4 show ?thesis by blast
qed

text \<open>
  The claim as stated fails on an entity whose state is \<open>unavailable\<close>: for the search
  \<open>pool pump\<close> the pump scores 10 in \<open>findEntities\<close>, which returns it, and 0 in
  \<open>resolveEntityId\<close>, which drops it.
\<close>

theorem find_score_without_penalty:
  "find_score ''pool pump''
     (make_entity \<lparr>so_entity_id = ''switch.pool_pump'', so_state = ''unavailable'',
        so_attributes = Some \<lparr>friendly_name = Some ''Pool Pump'',
                               unit_of_measurement = None\<rparr>\<rparr>) = 10
   \<and> resolve_score ''pool pump''
     (make_entity \<lparr>so_entity_id = ''switch.pool_pump'', so_state = ''unavailable'',
        so_attributes = Some \<lparr>friendly_name = Some ''Pool Pump'',
                               unit_of_measurement = None\<rparr>\<rparr>) = 0
   \<and> find_in
       (indexStates [\<lparr>so_entity_id = ''switch.pool_pump'', so_state = ''unavailable'',
           so_attributes = Some \<lparr>friendly_name = Some ''Pool Pump'',
                                  unit_of_measurement = None\<rparr>\<rparr>] (createHAClient 5000))
       ''switch'' (Some ''pool pump'')
     = [\<lparr>view_entity_id = ''switch.pool_pump'', view_name = ''Pool Pump'',
         view_state = ''unavailable''\<rparr>]
   \<and> resolve_in
       (indexStates [\<lparr>so_entity_id = ''switch.pool_pump'', so_state = ''unavailable'',
           so_attributes = Some \<lparr>friendly_name = Some ''Pool Pump'',
                                  unit_of_measurement = None\<rparr>\<rparr>] (createHAClient 5000))
       [''switch''] ''pool pump'' 4
     = None"
  by code_simp

section \<open>Properties of callService\<close>

lemma refreshStates_posted:
  assumes "refreshStates force (h, c) = (r, h', c')"
  shows "posted h' = posted h \<and> post_replies h' = post_replies h"
  using assms
  by (auto simp: refreshStates_def Let_def split: if_splits prod.splits)

lemma ensureStatesFresh_posted:
  assumes "ensureStatesFresh (h, c) = (r, h', c')"
  shows "posted h' = posted h \<and> post_replies h' = post_replies h"
  using assms refreshStates_posted unfolding ensureStatesFresh_def by blast

lemma post_service_client:
  assumes "post_service domain service tgt data (h, c) = (r, h', c')"
  shows "c' = c \<and> length (posted h') = Suc (length (posted h))"
  using assms
  by (auto simp: post_service_def Let_def split: prod.splits http_reply.splits)

text \<open>A service call is posted for a target only when the snapshot holds the target.\<close>

lemma callService_guard:
  assumes call: "callService domain service tgt data (h, c) = (r, h', c')"
    and tgt: "truthy (target_id tgt)"
    and absent: "statesByEntityId c' (the (target_id tgt)) = None"
  shows "posted h' = posted h \<and> (\<exists>e. r = Inl e)"
proof (cases "truthy domain \<and> truthy service")
  case False
  with call show ?thesis
    by (auto simp: callService_def split: if_splits)
next
  case True
  obtain r1 h1 c1 where e1: "ensureStatesFresh (h, c) = (r1, h1, c1)"
    by (metis prod_cases3)
  note p1 = ensureStatesFresh_posted [OF e1]
  show ?thesis
  proof (cases r1)
    case (Inl e)
    with call True tgt e1 p1 show ?thesis
      by (auto simp: callService_def)
  next
    case (Inr u)
    show ?thesis
    proof (cases "statesByEntityId c1 (the (target_id tgt))")
      case (Some s)
      with call True tgt e1 Inr
      have "post_service (the domain) (the service) tgt data (h1, c1) = (r, h', c')"
        by (simp add: callService_def)
      from post_service_client [OF this] Some absent show ?thesis by simp
    next
      case None
      obtain r2 h2 c2 where e2: "refreshStates True (h1, c1) = (r2, h2, c2)"
        by (metis prod_cases3)
      note p2 = refreshStates_posted [OF e2]
      show ?thesis
      proof (cases r2)
        case (Inl e)
        with call True tgt e1 \<open>r1 = Inr u\<close> None e2 p1 p2 show ?thesis
          by (auto simp: callService_def)
      next
        case (Inr u2)
        show ?thesis
        proof (cases "statesByEntityId c2 (the (target_id tgt))")
          case None2: None
          with call True tgt e1 \<open>r1 = Inr u\<close> None e2 Inr p1 p2 show ?thesis
            by (auto simp: callService_def)
        next
          case (Some s)
          with call True tgt e1 \<open>r1 = Inr u\<close> None e2 Inr
          have "post_service (the domain) (the service) tgt data (h2, c2) = (r, h', c')"
            by (simp add: callService_def)
          from post_service_client [OF this] Some absent show ?thesis by simp
        qed
      qed
    qed
  qed
qed

text \<open>
  C7. A call of \<open>callService\<close> with a domain, a service and a target entity id, on which
  the freshness check returns and leaves the id unknown, and the forced refresh returns
  and leaves it unknown still, fails with the not-found error of that id; the hub has
  been sent no service call and has given none of its replies to one. More generally,
  whenever the snapshot does not hold the target id when the call ends (also when a
  refresh has failed), the call has failed and no service call has been posted.
\<close>

theorem callService_unknown_target:
  "(truthy domain \<and> truthy service \<and> target_id tgt = Some eid \<and> eid \<noteq> []
      \<and> ensureStatesFresh (h, c) = (Inr (), h1, c1) \<and> statesByEntityId c1 eid = None
      \<and> refreshStates True (h1, c1) = (Inr (), h2, c2) \<and> statesByEntityId c2 eid = None
    \<longrightarrow> callService domain service tgt data (h, c) = (Inl (NotFoundError eid), h2, c2)
        \<and> posted h2 = posted h \<and> post_replies h2 = post_replies h)
   \<and> (callService domain service tgt data (h, c) = (r, h', c') \<and> target_id tgt = Some eid
        \<and> eid \<noteq> [] \<and> statesByEntityId c' eid = None
    \<longrightarrow> posted h' = posted h \<and> (\<exists>e. r = Inl e))"
proof -
  have a: "callService domain service tgt data (h, c) = (Inl (NotFoundError eid), h2, c2)
        \<and> posted h2 = posted h \<and> post_replies h2 = post_replies h"
    if "truthy domain" "truthy service" "target_id tgt = Some eid" "eid \<noteq> []"
      and e1: "ensureStatesFresh (h, c) = (Inr (), h1, c1)" and "statesByEntityId c1 eid = None"
      and e2: "refreshStates True (h1, c1) = (Inr (), h2, c2)" and "statesByEntityId c2 eid = None"
    using that ensureStatesFresh_posted [OF e1] refreshStates_posted [OF e2]
    by (simp add: callService_def truthy_def)
  have b: "posted h' = posted h \<and> (\<exists>e. r = Inl e)"
    if "callService domain service tgt data (h, c) = (r, h', c')" "target_id tgt = Some eid"
      "eid \<noteq> []" "statesByEntityId c' eid = None"
    using callService_guard [OF that(1)] that by (simp add: truthy_def)
  from a b show ?thesis by blast
qed

theorem callService_unknown_target_witness:
  "fst (callService (Some ''light'') (Some ''turn_on'')
          (Some \<lparr>target_entity_id = Some ''light.ghost'', target_area_id = None\<rparr>) None
          (\<lparr>now = 100000,
            bulk_replies =
              [(10, HttpOk [\<lparr>so_entity_id = ''light.kitchen'', so_state = ''on'',
                              so_attributes = None\<rparr>]),
               (20, HttpOk [\<lparr>so_entity_id = ''light.kitchen'', so_state = ''on'',
                              so_attributes = None\<rparr>])],
            point_replies = [], post_replies = [(5, HttpOk ())], bulk_fetches = 0,
            point_fetches = [], posted = []\<rparr>,
           createHAClient 5000))
     = Inl (NotFoundError ''light.ghost'')
   \<and> posted (fst (snd (callService (Some ''light'') (Some ''turn_on'')
          (Some \<lparr>target_entity_id = Some ''light.ghost'', target_area_id = None\<rparr>) None
          (\<lparr>now = 100000,
            bulk_replies =
              [(10, HttpOk [\<lparr>so_entity_id = ''light.kitchen'', so_state = ''on'',
                              so_attributes = None\<rparr>]),
               (20, HttpOk [\<lparr>so_entity_id = ''light.kitchen'', so_state = ''on'',
                              so_attributes = None\<rparr>])],
            point_replies = [], post_replies = [(5, HttpOk ())], bulk_fetches = 0,
            point_fetches = [], posted = []\<rparr>,
           createHAClient 5000))))
     = []"
proof -
  let ?K = "\<lparr>so_entity_id = ''light.kitchen'', so_state = ''on'', so_attributes = None\<rparr>"
  let ?H0 = "\<lparr>now = 100000, bulk_replies = [(10, HttpOk [?K]), (20, HttpOk [?K])],
            point_replies = [], post_replies = [(5, HttpOk ())], bulk_fetches = 0,
            point_fetches = [], posted = []\<rparr>"
  let ?C0 = "createHAClient 5000"
  let ?H1 = "\<lparr>now = 100010, bulk_replies = [(20, HttpOk [?K])],
            point_replies = [], post_replies = [(5, HttpOk ())], bulk_fetches = 1,
            point_fetches = [], posted = []\<rparr>"
  let ?C1 = "(indexStates [?K] ?C0)\<lparr>lastStatesRefreshAt := 100010\<rparr>"
  let ?H2 = "\<lparr>now = 100030, bulk_replies = [],
            point_replies = [], post_replies = [(5, HttpOk ())], bulk_fetches = 2,
            point_fetches = [], posted = []\<rparr>"
  let ?C2 = "(indexStates [?K] ?C0)\<lparr>lastStatesRefreshAt := 100030\<rparr>"
  let ?tgt = "Some \<lparr>target_entity_id = Some ''light.ghost'', target_area_id = None\<rparr>"
  have e1: "ensureStatesFresh (?H0, ?C0) = (Inr (), ?H1, ?C1)"
    by (simp add: ensureStatesFresh_def refreshStates_def next_reply_def settle_refresh_def
        indexStates_def createHAClient_def)
  have e2: "refreshStates True (?H1, ?C1) = (Inr (), ?H2, ?C2)"
    by (simp add: refreshStates_def next_reply_def settle_refresh_def
        indexStates_def createHAClient_def)
  have a1: "statesByEntityId ?C1 ''light.ghost'' = None"
    and a2: "statesByEntityId ?C2 ''light.ghost'' = None"
    by (simp_all add: indexStates_def)
  have t: "truthy (Some ''light'')" "truthy (Some ''turn_on'')"
    "target_id ?tgt = Some ''light.ghost''" "''light.ghost'' \<noteq> []"
    by (simp_all add: truthy_def target_id_def)
  note inst = callService_unknown_target [where domain = "Some ''light''"
      and service = "Some ''turn_on''" and tgt = ?tgt and eid = "''light.ghost''" and h = ?H0
      and c = ?C0 and ?h1.0 = ?H1 and ?c1.0 = ?C1 and ?h2.0 = ?H2 and ?c2.0 = ?C2 and data = None
      and r = "Inl (NotFoundError ''light.ghost'')" and h' = ?H2 and c' = ?C2]
  from inst [THEN conjunct1, rule_format] t e1 e2 a1 a2
  have call: "callService (Some ''light'') (Some ''turn_on'') ?tgt None (?H0, ?C0)
          = (Inl (NotFoundError ''light.ghost''), ?H2, ?C2)"
    by blast
  from inst [THEN conjunct2, rule_format] call t a2
  have "posted ?H2 = posted ?H0"
    by blast
  with call show ?thesis by simp
qed

section \<open>Properties of the plan cache\<close>

lemma map_delete_absent: "k \<notin> fst ` set m \<Longrightarrow> map_delete k m = m"
  by (induction m) (auto simp: map_delete_def)

lemma map_delete_keys: "fst ` set (map_delete k m) = fst ` set m - {k}"
  by (auto simp: map_delete_def)

lemma map_delete_distinct: "distinct (map fst m) \<Longrightarrow> distinct (map fst (map_delete k m))"
  by (simp add: map_delete_def distinct_map_filter)

lemma map_set_absent: "k \<notin> fst ` set m \<Longrightarrow> map_set k v m = m @ [(k, v)]"
  by (induction m) auto

lemma map_set_after_delete: "map_set k v (map_delete k m) = map_delete k m @ [(k, v)]"
  by (rule map_set_absent) (simp add: map_delete_keys)

lemma touch_distinct:
  "distinct (map fst m) \<Longrightarrow> distinct (map fst (map_delete k m @ [(k, v)]))"
  using map_delete_keys [of k m] by (auto simp: map_delete_distinct)

lemma map_of_delete_same: "map_of (map_delete k m) k = None"
  by (simp add: map_of_eq_None_iff map_delete_keys)

lemma evict_bound: "evict maxE m = Some m' \<Longrightarrow> int (length m') \<le> maxE"
  by (erule evict.raw_induct [rotated]) (auto split: if_splits)

lemma evict_small: "int (length m) \<le> maxE \<Longrightarrow> evict maxE m = Some m"
  by (subst evict.simps) simp

lemma evict_total: "0 \<le> maxE \<Longrightarrow> \<exists>m'. evict maxE m = Some m'"
proof (induction "length m" arbitrary: m rule: less_induct)
  case less
  show ?case
  proof (cases m)
    case Nil
    with less.prems show ?thesis by (simp add: evict_small)
  next
    case (Cons p ps)
    have "length (map_delete (fst p) m) < length m"
      using Cons by (simp add: map_delete_def le_imp_less_Suc)
    from less.hyps [OF this less.prems]
    obtain m' where "evict maxE (map_delete (fst p) m) = Some m'" ..
    with Cons show ?thesis by (subst evict.simps) simp
  qed
qed

lemma evict_negative: "maxE < 0 \<Longrightarrow> evict maxE m = None"
  using evict_bound [of maxE m] by (cases "evict maxE m") force+

lemma evict_zero: "evict 0 m = Some []"
proof -
  obtain m' where m': "evict 0 m = Some m'"
    using evict_total [of 0 m] by auto
  with evict_bound [OF m'] show ?thesis by simp
qed

lemma evict_distinct:
  "0 \<le> maxE \<Longrightarrow> distinct (map fst m) \<Longrightarrow> evict maxE m = Some (drop (length m - nat maxE) m)"
proof (induction m)
  case Nil
  then show ?case by (simp add: evict_small)
next
  case (Cons p ps)
  have del: "map_delete (fst p) (p # ps) = ps"
    using Cons.prems(2) map_delete_absent [of "fst p" ps] by (simp add: map_delete_def)
  show ?case
  proof (cases "int (length (p # ps)) > maxE")
    case True
    then have "evict maxE (p # ps) = evict maxE ps"
      by (subst evict.simps) (simp add: del)
    also have "\<dots> = Some (drop (length ps - nat maxE) ps)"
      using Cons by simp
    also have "drop (length ps - nat maxE) ps = drop (length (p # ps) - nat maxE) (p # ps)"
      using True Cons.prems(1) by (simp add: Suc_diff_le nat_le_iff)
    finally show ?thesis .
  next
    case False
    then show ?thesis by (simp add: evict_small)
  qed
qed

text \<open>The map that \<open>set\<close> hands to the eviction loop.\<close>

lemma cache_set_unfold:
  "cache_set c key v ttlMs t =
     (case evict (maxEntries c)
        (map_delete key (cmap c)
         @ [(key, \<lparr>entry_value = v, expiresAt = expiry (effectiveTtlMs c ttlMs) t\<rparr>)]) of
        None \<Rightarrow> None
      | Some m3 \<Rightarrow> Some (c\<lparr>cmap := m3\<rparr>))"
proof (cases "map_has key (cmap c)")
  case True
  then show ?thesis
    by (simp add: cache_set_def Let_def map_set_after_delete)
next
  case False
  then have "map_delete key (cmap c) = cmap c"
    by (simp add: map_has_def map_delete_absent)
  with False show ?thesis
    by (simp add: cache_set_def Let_def map_set_absent map_has_def)
qed

lemma cache_set_distinct:
  assumes "distinct (map fst (cmap c))" and "0 \<le> maxEntries c"
  shows "cache_set c key v ttlMs t =
     Some (c\<lparr>cmap :=
        drop (Suc (length (map_delete key (cmap c))) - nat (maxEntries c))
          (map_delete key (cmap c)
           @ [(key, \<lparr>entry_value = v, expiresAt = expiry (effectiveTtlMs c ttlMs) t\<rparr>)])\<rparr>)"
  unfolding cache_set_unfold
  using evict_distinct [OF assms(2) touch_distinct [OF assms(1)], of key]
  by simp

lemma cache_get_hit:
  assumes "map_of (cmap c) key = Some e" and "\<not> (\<exists>x. expiresAt e = Some x \<and> t > x)"
  shows "cache_get c key t
           = (Some (entry_value e), c\<lparr>cmap := map_delete key (cmap c) @ [(key, e)]\<rparr>)"
  using assms by (auto simp: cache_get_def map_set_after_delete)

lemma cache_get_expired:
  assumes "map_of (cmap c) key = Some e" and "expiresAt e = Some x" and "t > x"
  shows "cache_get c key t = (None, c\<lparr>cmap := map_delete key (cmap c)\<rparr>)"
  using assms by (simp add: cache_get_def)

lemma cache_get_distinct:
  "distinct (map fst (cmap c)) \<Longrightarrow> distinct (map fst (cmap (snd (cache_get c key t))))"
  by (auto simp: cache_get_def map_set_after_delete map_delete_distinct map_delete_keys
      split: option.splits)

lemma cache_set_keeps_distinct:
  assumes "distinct (map fst (cmap c))" and "cache_set c key v ttlMs t = Some c'"
  shows "distinct (map fst (cmap c'))"
proof -
  have "0 \<le> maxEntries c"
  proof (rule ccontr)
    assume "\<not> 0 \<le> maxEntries c"
    then have "cache_set c key v ttlMs t = None"
      by (simp add: cache_set_unfold evict_negative)
    with assms(2) show False by simp
  qed
  let ?M = "map_delete key (cmap c)
            @ [(key, \<lparr>entry_value = v, expiresAt = expiry (effectiveTtlMs c ttlMs) t\<rparr>)]"
  have "cmap c' = drop (Suc (length (map_delete key (cmap c))) - nat (maxEntries c)) ?M"
    using cache_set_distinct [OF assms(1) \<open>0 \<le> maxEntries c\<close>, of key v ttlMs t] assms(2)
    by auto
  moreover have "distinct (map fst ?M)"
    by (rule touch_distinct [OF assms(1)])
  ultimately show ?thesis
    by (metis distinct_drop drop_map)
qed

text \<open>
  C4. The map of the cache is in order of use, the least recently used entry first.
  A \<open>get\<close> that finds a live entry moves it to the end and leaves the others in their
  order. A \<open>set\<close> moves the key, with its new entry, to the end and then evicts from
  the front while the size exceeds \<open>maxEntries\<close>; with room for at least one entry the
  key that was set is the last. A \<open>set\<close> of a new key into a cache that holds exactly
  \<open>maxEntries\<close> entries evicts the first entry and keeps all the others.
\<close>

theorem lru_order:
  assumes "distinct (map fst (cmap c))"
  shows
    "(map_of (cmap c) key = Some e \<and> \<not> (\<exists>x. expiresAt e = Some x \<and> t > x)
        \<longrightarrow> cache_get c key t
              = (Some (entry_value e), c\<lparr>cmap := map_delete key (cmap c) @ [(key, e)]\<rparr>))
     \<and> (0 \<le> maxEntries c
        \<longrightarrow> cache_set c key v ttlMs t
              = Some (c\<lparr>cmap :=
                  drop (Suc (length (map_delete key (cmap c))) - nat (maxEntries c))
                    (map_delete key (cmap c)
                     @ [(key, \<lparr>entry_value = v,
                                expiresAt = expiry (effectiveTtlMs c ttlMs) t\<rparr>)])\<rparr>))
     \<and> (0 < maxEntries c
        \<longrightarrow> (\<exists>c'. cache_set c key v ttlMs t = Some c' \<and> cmap c' \<noteq> []
                  \<and> last (cmap c')
                      = (key, \<lparr>entry_value = v,
                                expiresAt = expiry (effectiveTtlMs c ttlMs) t\<rparr>)))
     \<and> (int (length (cmap c)) = maxEntries c \<and> \<not> map_has key (cmap c)
          \<and> cmap c = lru # others
        \<longrightarrow> cache_set c key v ttlMs t
              = Some (c\<lparr>cmap := others
                  @ [(key, \<lparr>entry_value = v,
                             expiresAt = expiry (effectiveTtlMs c ttlMs) t\<rparr>)]\<rparr>))"
proof -
  let ?new = "(key, \<lparr>entry_value = v, expiresAt = expiry (effectiveTtlMs c ttlMs) t\<rparr>)"
  let ?M = "map_delete key (cmap c) @ [?new]"
  let ?n = "Suc (length (map_delete key (cmap c))) - nat (maxEntries c)"
  have set_eq: "cache_set c key v ttlMs t = Some (c\<lparr>cmap := drop ?n ?M\<rparr>)"
    if "0 \<le> maxEntries c"
    using cache_set_distinct [OF assms that] .
  have a: "map_of (cmap c) key = Some e \<and> \<not> (\<exists>x. expiresAt e = Some x \<and> t > x)
        \<longrightarrow> cache_get c key t
              = (Some (entry_value e), c\<lparr>cmap := map_delete key (cmap c) @ [(key, e)]\<rparr>)"
    using cache_get_hit [of c key e t] by blast
  have b: "0 \<le> maxEntries c \<longrightarrow> cache_set c key v ttlMs t = Some (c\<lparr>cmap := drop ?n ?M\<rparr>)"
    using set_eq by blast
  have c: "\<exists>c'. cache_set c key v ttlMs t = Some c' \<and> cmap c' \<noteq> [] \<and> last (cmap c') = ?new"
    if pos: "0 < maxEntries c"
  proof -
    have "?n < length ?M" using pos by simp
    then have "drop ?n ?M \<noteq> []" and "last (drop ?n ?M) = last ?M"
      by (simp_all only: drop_eq_Nil not_le last_drop)
    then show ?thesis
      using set_eq pos by simp
  qed
  have d: "cache_set c key v ttlMs t = Some (c\<lparr>cmap := others @ [?new]\<rparr>)"
    if full: "int (length (cmap c)) = maxEntries c" and new: "\<not> map_has key (cmap c)"
      and shape: "cmap c = lru # others"
  proof -
    have del: "map_delete key (cmap c) = lru # others"
      using new shape by (simp add: map_has_def map_delete_absent)
    have n: "Suc (Suc (length others)) - nat (maxEntries c) = Suc 0"
      using full shape by simp
    have "drop ?n ?M = others @ [?new]"
      by (simp add: del n)
    moreover have "0 \<le> maxEntries c" using full by simp
    ultimately show ?thesis using set_eq by simp
  qed
  from a b c d show ?thesis by blast
qed

theorem lru_order_witness:
  "cache_get
     \<lparr>maxEntries = 2, defaultTtlMs = None,
      cmap = [(''a'', \<lparr>entry_value = (1::nat), expiresAt = None\<rparr>),
              (''b'', \<lparr>entry_value = 2, expiresAt = Some 50\<rparr>)]\<rparr> ''a'' 50
   = (Some 1,
      \<lparr>maxEntries = 2, defaultTtlMs = None,
       cmap = [(''b'', \<lparr>entry_value = 2, expiresAt = Some 50\<rparr>),
               (''a'', \<lparr>entry_value = 1, expiresAt = None\<rparr>)]\<rparr>)
   \<and> cache_set
     \<lparr>maxEntries = 2, defaultTtlMs = None,
      cmap = [(''a'', \<lparr>entry_value = (1::nat), expiresAt = None\<rparr>),
              (''b'', \<lparr>entry_value = 2, expiresAt = Some 50\<rparr>)]\<rparr> ''a'' 7 None 50
   = Some \<lparr>maxEntries = 2, defaultTtlMs = None,
       cmap = [(''b'', \<lparr>entry_value = 2, expiresAt = Some 50\<rparr>),
               (''a'', \<lparr>entry_value = 7, expiresAt = None\<rparr>)]\<rparr>
   \<and> (\<exists>c'. cache_set
     \<lparr>maxEntries = 2, defaultTtlMs = None,
      cmap = [(''a'', \<lparr>entry_value = (1::nat), expiresAt = None\<rparr>),
              (''b'', \<lparr>entry_value = 2, expiresAt = Some 50\<rparr>)]\<rparr> ''b'' 8 (Some 5) 50
     = Some c' \<and> last (cmap c') = (''b'', \<lparr>entry_value = 8, expiresAt = Some 55\<rparr>))
   \<and> cache_set
     \<lparr>maxEntries = 2, defaultTtlMs = None,
      cmap = [(''a'', \<lparr>entry_value = (1::nat), expiresAt = None\<rparr>),
              (''b'', \<lparr>entry_value = 2, expiresAt = Some 50\<rparr>)]\<rparr> ''c'' 3 (Some 10) 50
   = Some \<lparr>maxEntries = 2, defaultTtlMs = None,
       cmap = [(''b'', \<lparr>entry_value = 2, expiresAt = Some 50\<rparr>),
               (''c'', \<lparr>entry_value = 3, expiresAt = Some 60\<rparr>)]\<rparr>"
proof -
  let ?a = "(''a'', \<lparr>entry_value = (1::nat), expiresAt = None\<rparr>)"
  let ?b = "(''b'', \<lparr>entry_value = (2::nat), expiresAt = Some 50\<rparr>)"
  let ?c = "\<lparr>maxEntries = 2, defaultTtlMs = None, cmap = [?a, ?b]\<rparr>"
  have d: "distinct (map fst (cmap ?c))" by simp
  have h1: "map_of (cmap ?c) ''a'' = Some (snd ?a)
      \<and> \<not> (\<exists>x. expiresAt (snd ?a) = Some x \<and> 50 > x)"
    and h2: "0 \<le> maxEntries ?c" and h3: "0 < maxEntries ?c"
    and h4: "int (length (cmap ?c)) = maxEntries ?c \<and> \<not> map_has ''c'' (cmap ?c)
      \<and> cmap ?c = ?a # [?b]"
    by (simp_all add: map_has_def)
  have 1: "cache_get ?c ''a'' 50
      = (Some 1, \<lparr>maxEntries = 2, defaultTtlMs = None, cmap = [?b, ?a]\<rparr>)"
    using lru_order [OF d, where key = "''a''" and t = 50 and e = "snd ?a",
        THEN conjunct1, rule_format, OF h1]
    by (simp add: map_delete_def)
  have 2: "cache_set ?c ''a'' 7 None 50
      = Some \<lparr>maxEntries = 2, defaultTtlMs = None,
               cmap = [?b, (''a'', \<lparr>entry_value = 7, expiresAt = None\<rparr>)]\<rparr>"
    using lru_order [OF d, where key = "''a''" and t = 50 and v = 7 and ttlMs = None,
        THEN conjunct2, THEN conjunct1, rule_format, OF h2]
    by (simp add: map_delete_def expiry_def effectiveTtlMs_def)
  have 3: "\<exists>c'. cache_set ?c ''b'' 8 (Some 5) 50 = Some c'
      \<and> last (cmap c') = (''b'', \<lparr>entry_value = 8, expiresAt = Some 55\<rparr>)"
    using lru_order [OF d, where key = "''b''" and t = 50 and v = 8 and ttlMs = "Some 5",
        THEN conjunct2, THEN conjunct2, THEN conjunct1, rule_format, OF h3]
    by (auto simp: expiry_def effectiveTtlMs_def)
  have 4: "cache_set ?c ''c'' 3 (Some 10) 50
      = Some \<lparr>maxEntries = 2, defaultTtlMs = None,
               cmap = [?b, (''c'', \<lparr>entry_value = 3, expiresAt = Some 60\<rparr>)]\<rparr>"
    using lru_order [OF d, where key = "''c''" and t = 50 and v = 3 and ttlMs = "Some 10"
        and lru = ?a and others = "[?b]",
        THEN conjunct2, THEN conjunct2, THEN conjunct2, rule_format, OF h4]
    by (simp add: expiry_def effectiveTtlMs_def)
  from 1 2 3 4 show ?thesis by (intro conjI)
qed

text \<open>
  C5, as the code has it. An entry is expired when the time of the \<open>get\<close> is strictly
  later than its expiry time: such a \<open>get\<close> returns \<open>null\<close> and removes the entry. An
  entry set with a time to live \<open>ttl\<close> at time \<open>t0\<close> expires at \<open>t0 + ttl\<close>: the next
  \<open>get\<close> of the key at a time later than \<open>t0 + ttl\<close> returns \<open>null\<close> and removes it
  (for \<open>ttl = 0\<close> any time later than \<open>t0\<close>, for a negative \<open>ttl\<close> any time from
  \<open>t0\<close> on), and a \<open>get\<close> up to and at \<open>t0 + ttl\<close> still returns the value.
\<close>

theorem expired_entry_absent:
  "(map_of (cmap c) key = Some e \<and> expiresAt e = Some x \<and> t > x
      \<longrightarrow> cache_get c key t = (None, c\<lparr>cmap := map_delete key (cmap c)\<rparr>)
          \<and> \<not> map_has key (cmap (snd (cache_get c key t))))
   \<and> (distinct (map fst (cmap c)) \<and> 0 < maxEntries c
        \<and> effectiveTtlMs c ttlMs = Some ttl
      \<longrightarrow> (\<exists>c'. cache_set c key v ttlMs t0 = Some c'
             \<and> (t > t0 + ttl \<longrightarrow> fst (cache_get c' key t) = None
                   \<and> \<not> map_has key (cmap (snd (cache_get c' key t))))
             \<and> (t \<le> t0 + ttl \<longrightarrow> fst (cache_get c' key t) = Some v)))"
proof -
  have a: "cache_get c key t = (None, c\<lparr>cmap := map_delete key (cmap c)\<rparr>)
          \<and> \<not> map_has key (cmap (snd (cache_get c key t)))"
    if "map_of (cmap c) key = Some e" "expiresAt e = Some x" "t > x"
    using cache_get_expired [OF that] by (simp add: map_has_def map_delete_keys)
  have b: "\<exists>c'. cache_set c key v ttlMs t0 = Some c'
             \<and> (t > t0 + ttl \<longrightarrow> fst (cache_get c' key t) = None
                   \<and> \<not> map_has key (cmap (snd (cache_get c' key t))))
             \<and> (t \<le> t0 + ttl \<longrightarrow> fst (cache_get c' key t) = Some v)"
    if dist: "distinct (map fst (cmap c))" and pos: "0 < maxEntries c"
      and ttl: "effectiveTtlMs c ttlMs = Some ttl"
  proof -
    let ?e = "\<lparr>entry_value = v, expiresAt = Some (t0 + ttl)\<rparr>"
    from cache_set_distinct [OF dist, of key v ttlMs t0] pos
    obtain c' where set: "cache_set c key v ttlMs t0 = Some c'"
      and shape: "cmap c' = drop (Suc (length (map_delete key (cmap c))) - nat (maxEntries c))
                     (map_delete key (cmap c) @ [(key, ?e)])"
      by (simp add: ttl expiry_def)
    have dist': "distinct (map fst (cmap c'))"
      using cache_set_keeps_distinct [OF dist set] .
    have "Suc (length (map_delete key (cmap c))) - nat (maxEntries c)
            - length (map_delete key (cmap c)) = 0"
      using pos by simp
    then have "(key, ?e) \<in> set (cmap c')"
      unfolding shape by simp
    then have look: "map_of (cmap c') key = Some ?e"
      using dist' by simp
    have late: "fst (cache_get c' key t) = None
                \<and> \<not> map_has key (cmap (snd (cache_get c' key t)))" if "t > t0 + ttl"
      using cache_get_expired [OF look _ that]
      by (simp add: map_has_def map_delete_keys)
    have early: "fst (cache_get c' key t) = Some v" if "t \<le> t0 + ttl"
      using cache_get_hit [OF look, of t] that by simp
    from set late early show ?thesis by blast
  qed
  from a b show ?thesis by blast
qed

theorem expired_entry_absent_witness:
  "cache_get
     \<lparr>maxEntries = 2, defaultTtlMs = None,
      cmap = [(''a'', \<lparr>entry_value = (1::nat), expiresAt = Some 50\<rparr>)]\<rparr> ''a'' 51
   = (None, \<lparr>maxEntries = 2, defaultTtlMs = None, cmap = []\<rparr>)
   \<and> (\<exists>c'. cache_set \<lparr>maxEntries = 2, defaultTtlMs = None, cmap = []\<rparr> ''a'' (1::nat) (Some 0) 50
              = Some c'
            \<and> fst (cache_get c' ''a'' 51) = None
            \<and> \<not> map_has ''a'' (cmap (snd (cache_get c' ''a'' 51))))"
  using expired_entry_absent [where key = "''a''" and t = 51 and x = 50
      and e = "\<lparr>entry_value = (1::nat), expiresAt = Some 50\<rparr>"
      and c = "\<lparr>maxEntries = 2, defaultTtlMs = None,
        cmap = [(''a'', \<lparr>entry_value = (1::nat), expiresAt = Some 50\<rparr>)]\<rparr>"]
    expired_entry_absent [where key = "''a''" and t = 51 and ttl = 0 and ?t0.0 = 50
      and ttlMs = "Some 0" and v = "1::nat"
      and c = "\<lparr>maxEntries = 2, defaultTtlMs = None, cmap = []\<rparr>"]
  by (simp add: map_delete_def effectiveTtlMs_def)

text \<open>
  The claim as stated fails at the expiry time itself: a plan set with \<open>ttlMs = 0\<close> at
  time 1000 is returned by a \<open>get\<close> at time 1000.
\<close>

theorem ttl_zero_same_time_hit:
  "cache_set (new_IntentCache 500 (Some 604800000)) ''turn on pool pump''
       \<lparr>plan_version = 1, plan_toolCalls = []\<rparr> (Some 0) 1000
     = Some \<lparr>maxEntries = 500, defaultTtlMs = Some 604800000,
             cmap = [(''turn on pool pump'',
                      \<lparr>entry_value = \<lparr>plan_version = 1, plan_toolCalls = []\<rparr>,
                       expiresAt = Some 1000\<rparr>)]\<rparr>
   \<and> fst (cache_get
       \<lparr>maxEntries = 500, defaultTtlMs = Some 604800000,
        cmap = [(''turn on pool pump'',
                 \<lparr>entry_value = \<lparr>plan_version = 1, plan_toolCalls = []\<rparr>,
                  expiresAt = Some 1000\<rparr>)]\<rparr>
       ''turn on pool pump'' 1000)
     = Some \<lparr>plan_version = 1, plan_toolCalls = []\<rparr>"
  by (simp add: cache_set_def new_IntentCache_def map_has_def effectiveTtlMs_def expiry_def
      evict_small cache_get_def)

lemma cache_run_empty:
  "maxEntries c = 0 \<Longrightarrow> cmap c = [] \<Longrightarrow> cache_run ops c = Some c"
proof (induction ops)
  case Nil
  then show ?case by simp
next
  case (Cons op ops)
  show ?case
  proof (cases op)
    case (Get k t)
    have "cache_get c k t = (None, c)"
      using Cons.prems by (simp add: cache_get_def)
    with Get Cons show ?thesis by simp
  next
    case (Set k v ttlMs t)
    have "cache_set c k v ttlMs t = Some c"
      using Cons.prems by (simp add: cache_set_unfold evict_zero)
    with Set Cons show ?thesis by simp
  next
    case (Delete k)
    have "cache_delete c k = c"
      using Cons.prems by (simp add: cache_delete_def map_delete_def)
    with Delete Cons show ?thesis by simp
  qed
qed

text \<open>
  C10. After a \<open>set\<close> that returns, the cache holds at most \<open>maxEntries\<close> entries, and
  a \<open>set\<close> returns whenever \<open>maxEntries\<close> is not negative. With \<open>maxEntries = 0\<close> a
  \<open>set\<close> leaves the cache empty, and an empty cache stays as it is under every sequence
  of operations, every \<open>get\<close> returning \<open>null\<close>.
\<close>

theorem cache_bounded:
  "(cache_set c key v ttlMs t = Some c'
      \<longrightarrow> int (length (cmap c')) \<le> maxEntries c \<and> maxEntries c' = maxEntries c)
   \<and> (0 \<le> maxEntries c \<longrightarrow> (\<exists>c''. cache_set c key v ttlMs t = Some c''))
   \<and> (maxEntries c = 0 \<longrightarrow> cache_set c key v ttlMs t = Some (c\<lparr>cmap := []\<rparr>))
   \<and> (maxEntries c = 0 \<and> cmap c = []
      \<longrightarrow> cache_run ops c = Some c \<and> cache_get c key t = (None, c))"
proof -
  have a: "int (length (cmap c')) \<le> maxEntries c \<and> maxEntries c' = maxEntries c"
    if "cache_set c key v ttlMs t = Some c'"
    using that evict_bound [of "maxEntries c"]
    by (auto simp: cache_set_unfold split: option.splits)
  have b: "\<exists>c''. cache_set c key v ttlMs t = Some c''" if "0 \<le> maxEntries c"
    using evict_total [OF that,
        of "map_delete key (cmap c)
            @ [(key, \<lparr>entry_value = v, expiresAt = expiry (effectiveTtlMs c ttlMs) t\<rparr>)]"]
    by (auto simp: cache_set_unfold)
  have c: "cache_set c key v ttlMs t = Some (c\<lparr>cmap := []\<rparr>)" if "maxEntries c = 0"
    using that by (simp add: cache_set_unfold evict_zero)
  have d: "cache_run ops c = Some c \<and> cache_get c key t = (None, c)"
    if "maxEntries c = 0" "cmap c = []"
    using cache_run_empty [OF that] that by (simp add: cache_get_def)
  from a b c d show ?thesis by blast
qed

theorem cache_bounded_witness:
  "cache_set (new_IntentCache 0 None) ''k'' (7::nat) None 5 = Some (new_IntentCache 0 None)
   \<and> cache_run [Set ''k'' (7::nat) None 5, Get ''k'' 6, Delete ''j'', Set ''j'' 8 (Some 9) 7]
        (new_IntentCache 0 None) = Some (new_IntentCache 0 None)
   \<and> cache_get (new_IntentCache 0 None :: nat IntentCache) ''k'' 6
       = (None, new_IntentCache 0 None)
   \<and> (\<exists>c'. cache_set (new_IntentCache 1 None) ''k'' (7::nat) None 5 = Some c'
            \<and> int (length (cmap c')) \<le> 1)"
proof -
  let ?c0 = "new_IntentCache 0 None :: nat IntentCache"
  let ?c1 = "new_IntentCache 1 None :: nat IntentCache"
  let ?ops = "[Set ''k'' (7::nat) None 5, Get ''k'' 6, Delete ''j'', Set ''j'' 8 (Some 9) 7]"
  have z0: "maxEntries ?c0 = 0" and e0: "cmap ?c0 = []" and u0: "?c0\<lparr>cmap := []\<rparr> = ?c0"
    and z1: "0 \<le> maxEntries ?c1" and m1: "maxEntries ?c1 = 1"
    by (simp_all add: new_IntentCache_def)
  have 1: "cache_set ?c0 ''k'' 7 None 5 = Some ?c0"
    using cache_bounded [where c = ?c0 and key = "''k''" and v = 7 and ttlMs = None and t = 5,
        THEN conjunct2, THEN conjunct2, THEN conjunct1, rule_format, OF z0]
    by (simp only: u0)
  have 23: "cache_run ?ops ?c0 = Some ?c0 \<and> cache_get ?c0 ''k'' 6 = (None, ?c0)"
    using cache_bounded [where c = ?c0 and key = "''k''" and t = 6 and ops = ?ops,
        THEN conjunct2, THEN conjunct2, THEN conjunct2, rule_format, OF conjI, OF z0 e0] .
  obtain c' where s: "cache_set ?c1 ''k'' (7::nat) None 5 = Some c'"
    using cache_bounded [where c = ?c1 and key = "''k''" and v = 7 and ttlMs = None and t = 5,
        THEN conjunct2, THEN conjunct1, rule_format, OF z1] ..
  have "int (length (cmap c')) \<le> maxEntries ?c1"
    using cache_bounded [where c = ?c1 and key = "''k''" and v = 7 and ttlMs = None and t = 5
        and c' = c', THEN conjunct1, rule_format, OF s] ..
  then have "int (length (cmap c')) \<le> 1"
    by (simp only: m1)
  with s 1 23 show ?thesis by blast
qed

section \<open>Properties of plans\<close>

lemma map_rebuild_tool_call:
  "map (\<lambda>t. \<lparr>tc_name = tc_name t, tc_input = tc_input t\<rparr>) xs = xs"
  by (induction xs) auto

text \<open>
  C3. A \<open>call_service\<close> call is cacheable exactly when it has a (truthy) target entity
  id and its service is not \<open>toggle\<close>; a \<open>get_entity_state\<close> call exactly when it names
  a (truthy) entity id; a \<open>find_entities\<close> call never, and no call of any other name;
  \<open>buildPlanFromToolUses\<close> returns a plan exactly when some call is cacheable, and the
  plan then holds the cacheable calls, in order, under version 1.
\<close>

theorem cacheability:
  "isCacheableToolCall \<lparr>tc_name = ''call_service'', tc_input = inp\<rparr> =
     (truthy (input_target_entity_id inp) \<and> input_service inp \<noteq> Some ''toggle'')
   \<and> isCacheableToolCall \<lparr>tc_name = ''get_entity_state'', tc_input = inp\<rparr> =
     truthy (input_entity_id inp)
   \<and> isCacheableToolCall \<lparr>tc_name = ''find_entities'', tc_input = inp\<rparr> = False
   \<and> (nm \<noteq> ''call_service'' \<and> nm \<noteq> ''get_entity_state''
        \<longrightarrow> isCacheableToolCall \<lparr>tc_name = nm, tc_input = inp\<rparr> = False)
   \<and> (buildPlanFromToolUses toolUses \<noteq> None) = (\<exists>t \<in> set toolUses. isCacheableToolCall t)
   \<and> (\<forall>p. buildPlanFromToolUses toolUses = Some p \<longrightarrow>
          plan_version p = 1 \<and> plan_toolCalls p = filter isCacheableToolCall toolUses
          \<and> plan_toolCalls p \<noteq> [])"
proof -
  have none: "input_target_entity_id None = None" "input_entity_id None = None"
    by (simp_all add: input_target_entity_id_def input_entity_id_def)
  have a: "isCacheableToolCall \<lparr>tc_name = ''call_service'', tc_input = inp\<rparr> =
     (truthy (input_target_entity_id inp) \<and> input_service inp \<noteq> Some ''toggle'')"
    by (cases inp) (auto simp: isCacheableToolCall_def none truthy_def)
  have b: "isCacheableToolCall \<lparr>tc_name = ''get_entity_state'', tc_input = inp\<rparr> =
     truthy (input_entity_id inp)"
    by (cases inp) (auto simp: isCacheableToolCall_def none truthy_def)
  have c: "isCacheableToolCall \<lparr>tc_name = ''find_entities'', tc_input = inp\<rparr> = False"
    by (simp add: isCacheableToolCall_def)
  have d: "nm \<noteq> ''call_service'' \<and> nm \<noteq> ''get_entity_state''
        \<longrightarrow> isCacheableToolCall \<lparr>tc_name = nm, tc_input = inp\<rparr> = False"
    by (simp add: isCacheableToolCall_def)
  have e: "(buildPlanFromToolUses toolUses \<noteq> None) = (\<exists>t \<in> set toolUses. isCacheableToolCall t)"
    by (auto simp: buildPlanFromToolUses_def Let_def filter_empty_conv)
  have f: "\<forall>p. buildPlanFromToolUses toolUses = Some p \<longrightarrow>
          plan_version p = 1 \<and> plan_toolCalls p = filter isCacheableToolCall toolUses
          \<and> plan_toolCalls p \<noteq> []"
    by (auto simp: buildPlanFromToolUses_def Let_def map_rebuild_tool_call split: if_splits)
  from a b c d e f show ?thesis by blast
qed

theorem cacheability_witness:
  "isCacheableToolCall
     \<lparr>tc_name = ''call_service'',
      tc_input = Some \<lparr>in_domain = Some ''light'', in_service = Some ''turn_on'',
        in_target = Some \<lparr>target_entity_id = Some ''light.kitchen'', target_area_id = None\<rparr>,
        in_data = None, in_entity_id = None, in_search = None\<rparr>\<rparr>
   \<and> \<not> isCacheableToolCall
     \<lparr>tc_name = ''list_entities'',
      tc_input = Some \<lparr>in_domain = Some ''light'', in_service = Some ''turn_on'',
        in_target = Some \<lparr>target_entity_id = Some ''light.kitchen'', target_area_id = None\<rparr>,
        in_data = None, in_entity_id = None, in_search = None\<rparr>\<rparr>
   \<and> buildPlanFromToolUses
       [\<lparr>tc_name = ''find_entities'',
         tc_input = Some \<lparr>in_domain = Some ''light'', in_service = None, in_target = None,
           in_data = None, in_entity_id = None, in_search = Some ''kitchen''\<rparr>\<rparr>,
        \<lparr>tc_name = ''get_entity_state'',
         tc_input = Some \<lparr>in_domain = None, in_service = None, in_target = None,
           in_data = None, in_entity_id = Some ''light.kitchen'', in_search = None\<rparr>\<rparr>]
     = Some \<lparr>plan_version = 1, plan_toolCalls =
        [\<lparr>tc_name = ''get_entity_state'',
         tc_input = Some \<lparr>in_domain = None, in_service = None, in_target = None,
           in_data = None, in_entity_id = Some ''light.kitchen'', in_search = None\<rparr>\<rparr>]\<rparr>"
  using cacheability [where nm = "''list_entities''"
      and inp = "Some \<lparr>in_domain = Some ''light'', in_service = Some ''turn_on'',
        in_target = Some \<lparr>target_entity_id = Some ''light.kitchen'', target_area_id = None\<rparr>,
        in_data = None, in_entity_id = None, in_search = None\<rparr>"
      and toolUses = "[\<lparr>tc_name = ''find_entities'',
         tc_input = Some \<lparr>in_domain = Some ''light'', in_service = None, in_target = None,
           in_data = None, in_entity_id = None, in_search = Some ''kitchen''\<rparr>\<rparr>,
        \<lparr>tc_name = ''get_entity_state'',
         tc_input = Some \<lparr>in_domain = None, in_service = None, in_target = None,
           in_data = None, in_entity_id = Some ''light.kitchen'', in_search = None\<rparr>\<rparr>]"]
  by (auto simp: truthy_def input_target_entity_id_def input_service_def input_entity_id_def
      isCacheableToolCall_def)

lemma render_snoc:
  "renderResponseFromToolResults ha (rs @ [r]) = renderResponseFromToolResults ha [r]"
  by (simp add: renderResponseFromToolResults_def)

lemma render_call_service_known:
  assumes "tr_name r = ''call_service''"
    and "input_target_entity_id (tr_input r) = Some eid" and "eid \<noteq> []"
    and "statesByEntityId ha eid = Some so"
  shows "input_service (tr_input r) = Some ''turn_on'' \<Longrightarrow>
           renderResponseFromToolResults ha [r]
             = ''Turned on '' @ or_else (attr_friendly_name so) eid @ ''.''"
    and "input_service (tr_input r) = Some ''turn_off'' \<Longrightarrow>
           renderResponseFromToolResults ha [r]
             = ''Turned off '' @ or_else (attr_friendly_name so) eid @ ''.''"
  using assms
  by (simp_all add: renderResponseFromToolResults_def truthy_def getEntitySummary_def)

lemma render_call_service_other:
  assumes "tr_name r = ''call_service''"
    and "\<not> truthy (input_target_entity_id (tr_input r))
         \<or> statesByEntityId ha (the (input_target_entity_id (tr_input r))) = None
         \<or> (input_service (tr_input r) \<noteq> Some ''turn_on''
             \<and> input_service (tr_input r) \<noteq> Some ''turn_off'')"
  shows "renderResponseFromToolResults ha [r] = ''Done.''"
  using assms
  by (auto simp: renderResponseFromToolResults_def getEntitySummary_def Let_def)

lemma render_state_read:
  assumes "tr_name r = ''get_entity_state''" and "tr_result r = StateValue so"
  shows "renderResponseFromToolResults ha [r] =
           or_else (attr_friendly_name so) (so_entity_id so) @ '' is '' @ so_state so
           @ (if truthy (attr_unit so) then the (attr_unit so) else []) @ ''.''"
  using assms
  by (auto simp: renderResponseFromToolResults_def formatStateForSpeech_def Let_def
      or_else_def truthy_def split: option.splits)

lemma render_other:
  assumes "tr_name r \<noteq> ''call_service''" and "tr_name r \<noteq> ''get_entity_state''"
  shows "renderResponseFromToolResults ha [r] = ''Done.''"
  using assms by (simp add: renderResponseFromToolResults_def)

text \<open>
  C6. On a non-empty list of tool results the response is that of the last result alone.
  A \<open>call_service\<close> with service \<open>turn_on\<close> or \<open>turn_off\<close> on a target that the
  snapshot knows renders \<open>Turned on {name}.\<close> or \<open>Turned off {name}.\<close>, the name being
  the friendly name or else the id; any other \<open>call_service\<close> (no target, a target the
  snapshot does not know, another service) renders \<open>Done.\<close>; a \<open>get_entity_state\<close>
  renders \<open>{name} is {state}{unit}.\<close>, the unit directly behind the state when there is
  one and nothing when there is none; every other name renders \<open>Done.\<close>.
\<close>

theorem render_last_result:
  "renderResponseFromToolResults ha (rs @ [r]) = renderResponseFromToolResults ha [r]
   \<and> (tr_name r = ''call_service'' \<and> input_target_entity_id (tr_input r) = Some eid
        \<and> eid \<noteq> [] \<and> statesByEntityId ha eid = Some known
        \<and> input_service (tr_input r) = Some ''turn_on''
      \<longrightarrow> renderResponseFromToolResults ha (rs @ [r])
            = ''Turned on '' @ or_else (attr_friendly_name known) eid @ ''.'')
   \<and> (tr_name r = ''call_service'' \<and> input_target_entity_id (tr_input r) = Some eid
        \<and> eid \<noteq> [] \<and> statesByEntityId ha eid = Some known
        \<and> input_service (tr_input r) = Some ''turn_off''
      \<longrightarrow> renderResponseFromToolResults ha (rs @ [r])
            = ''Turned off '' @ or_else (attr_friendly_name known) eid @ ''.'')
   \<and> (tr_name r = ''call_service''
        \<and> (\<not> truthy (input_target_entity_id (tr_input r))
            \<or> statesByEntityId ha (the (input_target_entity_id (tr_input r))) = None
            \<or> (input_service (tr_input r) \<noteq> Some ''turn_on''
                \<and> input_service (tr_input r) \<noteq> Some ''turn_off''))
      \<longrightarrow> renderResponseFromToolResults ha (rs @ [r]) = ''Done.'')
   \<and> (tr_name r = ''get_entity_state'' \<and> tr_result r = StateValue so
      \<longrightarrow> renderResponseFromToolResults ha (rs @ [r])
            = or_else (attr_friendly_name so) (so_entity_id so) @ '' is '' @ so_state so
              @ (if truthy (attr_unit so) then the (attr_unit so) else []) @ ''.'')
   \<and> (tr_name r \<noteq> ''call_service'' \<and> tr_name r \<noteq> ''get_entity_state''
      \<longrightarrow> renderResponseFromToolResults ha (rs @ [r]) = ''Done.'')"
  unfolding render_snoc [of ha rs r]
  using render_call_service_known [of r eid ha known] render_call_service_other [of r ha]
    render_state_read [of r so ha] render_other [of r ha]
  by blast

theorem render_last_result_witness:
  "renderResponseFromToolResults
     ((createHAClient 5000)
        \<lparr>statesByEntityId := [''light.bedroom'' \<mapsto>
           \<lparr>so_entity_id = ''light.bedroom'', so_state = ''on'',
            so_attributes = Some \<lparr>friendly_name = Some ''Bedroom Light'',
                                  unit_of_measurement = None\<rparr>\<rparr>]\<rparr>)
     [\<lparr>tr_name = ''get_entity_state'', tr_input = None, tr_result = ServiceOk []\<rparr>,
      \<lparr>tr_name = ''call_service'',
       tr_input = Some \<lparr>in_domain = Some ''light'', in_service = Some ''turn_off'',
         in_target = Some \<lparr>target_entity_id = Some ''light.bedroom'', target_area_id = None\<rparr>,
         in_data = None, in_entity_id = None, in_search = None\<rparr>,
       tr_result = ServiceOk ''Called light.turn_off''\<rparr>]
   = ''Turned off Bedroom Light.''
   \<and> renderResponseFromToolResults
     ((createHAClient 5000)
        \<lparr>statesByEntityId := [''light.bedroom'' \<mapsto>
           \<lparr>so_entity_id = ''light.bedroom'', so_state = ''off'',
            so_attributes = None\<rparr>]\<rparr>)
     [\<lparr>tr_name = ''call_service'',
       tr_input = Some \<lparr>in_domain = Some ''light'', in_service = Some ''turn_on'',
         in_target = Some \<lparr>target_entity_id = Some ''light.bedroom'', target_area_id = None\<rparr>,
         in_data = None, in_entity_id = None, in_search = None\<rparr>,
       tr_result = ServiceOk ''Called light.turn_on''\<rparr>]
   = ''Turned on light.bedroom.''
   \<and> renderResponseFromToolResults (createHAClient 5000)
     [\<lparr>tr_name = ''call_service'',
       tr_input = Some \<lparr>in_domain = Some ''light'', in_service = Some ''turn_off'',
         in_target = Some \<lparr>target_entity_id = Some ''light.bedroom'', target_area_id = None\<rparr>,
         in_data = None, in_entity_id = None, in_search = None\<rparr>,
       tr_result = ServiceOk ''Called light.turn_off''\<rparr>]
   = ''Done.''
   \<and> renderResponseFromToolResults (createHAClient 5000)
     [\<lparr>tr_name = ''get_entity_state'',
       tr_input = Some \<lparr>in_domain = None, in_service = None, in_target = None,
         in_data = None, in_entity_id = Some ''sensor.pool_temperature'', in_search = None\<rparr>,
       tr_result = StateValue
         \<lparr>so_entity_id = ''sensor.pool_temperature'', so_state = ''82.1'',
          so_attributes = Some \<lparr>friendly_name = Some ''Pool Temperature'',
                                unit_of_measurement = Some [CHR 0xB0, CHR ''F'']\<rparr>\<rparr>\<rparr>]
   = ''Pool Temperature is 82.1'' @ [CHR 0xB0, CHR ''F''] @ ''.''
   \<and> renderResponseFromToolResults (createHAClient 5000)
     [\<lparr>tr_name = ''find_entities'', tr_input = None, tr_result = Entities []\<rparr>]
   = ''Done.''"
proof -
  let ?known = "\<lparr>so_entity_id = ''light.bedroom'', so_state = ''on'',
            so_attributes = Some \<lparr>friendly_name = Some ''Bedroom Light'',
                                  unit_of_measurement = None\<rparr>\<rparr>"
  let ?bare = "\<lparr>so_entity_id = ''light.bedroom'', so_state = ''off'', so_attributes = None\<rparr>"
  let ?ha1 = "(createHAClient 5000)\<lparr>statesByEntityId := [''light.bedroom'' \<mapsto> ?known]\<rparr>"
  let ?ha2 = "(createHAClient 5000)\<lparr>statesByEntityId := [''light.bedroom'' \<mapsto> ?bare]\<rparr>"
  let ?tgt = "Some \<lparr>target_entity_id = Some ''light.bedroom'', target_area_id = None\<rparr>"
  let ?off = "\<lparr>tr_name = ''call_service'',
       tr_input = Some \<lparr>in_domain = Some ''light'', in_service = Some ''turn_off'',
         in_target = ?tgt, in_data = None, in_entity_id = None, in_search = None\<rparr>,
       tr_result = ServiceOk ''Called light.turn_off''\<rparr>"
  let ?on = "\<lparr>tr_name = ''call_service'',
       tr_input = Some \<lparr>in_domain = Some ''light'', in_service = Some ''turn_on'',
         in_target = ?tgt, in_data = None, in_entity_id = None, in_search = None\<rparr>,
       tr_result = ServiceOk ''Called light.turn_on''\<rparr>"
  let ?pool = "\<lparr>so_entity_id = ''sensor.pool_temperature'', so_state = ''82.1'',
          so_attributes = Some \<lparr>friendly_name = Some ''Pool Temperature'',
                                unit_of_measurement = Some [CHR 0xB0, CHR ''F'']\<rparr>\<rparr>"
  let ?read = "\<lparr>tr_name = ''get_entity_state'',
       tr_input = Some \<lparr>in_domain = None, in_service = None, in_target = None,
         in_data = None, in_entity_id = Some ''sensor.pool_temperature'', in_search = None\<rparr>,
       tr_result = StateValue ?pool\<rparr>"
  let ?find = "\<lparr>tr_name = ''find_entities'', tr_input = None, tr_result = Entities []\<rparr>"
  let ?first = "\<lparr>tr_name = ''get_entity_state'', tr_input = None, tr_result = ServiceOk []\<rparr>"
  have 1: "renderResponseFromToolResults ?ha1 ([?first] @ [?off]) = ''Turned off Bedroom Light.''"
    using render_last_result [where ha = ?ha1 and rs = "[?first]" and r = ?off
        and eid = "''light.bedroom''" and known = ?known]
    by (auto simp: input_target_entity_id_def input_service_def or_else_def
        attr_friendly_name_def)
  have 2: "renderResponseFromToolResults ?ha2 ([] @ [?on]) = ''Turned on light.bedroom.''"
    using render_last_result [where ha = ?ha2 and rs = "[]" and r = ?on
        and eid = "''light.bedroom''" and known = ?bare]
    by (auto simp: input_target_entity_id_def input_service_def or_else_def
        attr_friendly_name_def)
  have 3: "renderResponseFromToolResults (createHAClient 5000) ([] @ [?off]) = ''Done.''"
    using render_last_result [where ha = "createHAClient 5000" and rs = "[]" and r = ?off]
    by (auto simp: input_target_entity_id_def createHAClient_def)
  have 4: "renderResponseFromToolResults (createHAClient 5000) ([] @ [?read])
      = ''Pool Temperature is 82.1'' @ [CHR 0xB0, CHR ''F''] @ ''.''"
    using render_last_result [where ha = "createHAClient 5000" and rs = "[]" and r = ?read
        and so = ?pool]
    by (auto simp: or_else_def attr_friendly_name_def attr_unit_def truthy_def)
  have 5: "renderResponseFromToolResults (createHAClient 5000) ([] @ [?find]) = ''Done.''"
    using render_last_result [where ha = "createHAClient 5000" and rs = "[]" and r = ?find]
    by auto
  from 1 2 3 4 5 show ?thesis by simp
qed

section \<open>Properties of the tool-use loop\<close>

lemma run_round_calls: "ls_calls (run_round st resp) = ls_calls st"
  by (simp add: run_round_def split: prod.splits)

lemma run_round_messages:
  "length (ls_messages (run_round st resp)) = length (ls_messages st) + 2"
  by (simp add: run_round_def split: prod.splits)

lemma tool_loop_stop:
  "stop_reason resp \<noteq> ''tool_use'' \<Longrightarrow> tool_loop create st resp = Some (Inr (resp, st))"
  by (subst tool_loop.simps) simp

lemma tool_loop_forever:
  assumes "stop_reason resp = ''tool_use''"
    and "\<forall>j. answers_tool_use create (ls_calls st + j)"
  shows "tool_loop create st resp = None"
proof -
  have "tool_loop create st resp = Some y \<Longrightarrow>
          \<not> (stop_reason resp = ''tool_use'' \<and> (\<forall>j. answers_tool_use create (ls_calls st + j)))"
    for y
  proof (erule tool_loop.raw_induct [rotated], rule notI)
    fix f create st resp y
    assume IH: "\<And>create st resp y. f create st resp = Some y \<Longrightarrow>
        \<not> (stop_reason resp = ''tool_use'' \<and> (\<forall>j. answers_tool_use create (ls_calls st + j)))"
      and body: "(if stop_reason resp = ''tool_use'' then
          (case create (ls_calls (run_round st resp)) (ls_messages (run_round st resp)) of
             Inl err \<Rightarrow> Some (Inl err)
           | Inr next_resp \<Rightarrow>
               f create ((run_round st resp)\<lparr>ls_calls := Suc (ls_calls (run_round st resp))\<rparr>)
                 next_resp)
          else Some (Inr (resp, st))) = Some y"
      and hyp: "stop_reason resp = ''tool_use'' \<and> (\<forall>j. answers_tool_use create (ls_calls st + j))"
    from hyp have "answers_tool_use create (ls_calls st + 0)" by blast
    then obtain r where r: "create (ls_calls st) (ls_messages (run_round st resp)) = Inr r"
      and rt: "stop_reason r = ''tool_use''"
      unfolding answers_tool_use_def by auto
    let ?st = "(run_round st resp)\<lparr>ls_calls := Suc (ls_calls (run_round st resp))\<rparr>"
    from body hyp r have "f create ?st r = Some y"
      by (simp add: run_round_calls)
    from IH [OF this] rt have "\<not> (\<forall>j. answers_tool_use create (ls_calls ?st + j))"
      by blast
    moreover have "answers_tool_use create (ls_calls ?st + j)" for j
      using hyp [THEN conjunct2, THEN spec, of "Suc j"] by (simp add: run_round_calls)
    ultimately show False by blast
  qed
  with assms show ?thesis
    by (cases "tool_loop create st resp") auto
qed

lemma tool_loop_after:
  assumes "stop_reason resp = ''tool_use''"
    and "\<forall>j<k. answers_tool_use create (ls_calls st + j)"
    and "answers_stop create (ls_calls st + k)"
  shows "\<exists>res. tool_loop create st resp = Some res
           \<and> (\<forall>r st'. res = Inr (r, st') \<longrightarrow>
                 ls_calls st' = ls_calls st + k + 1
                 \<and> length (ls_messages st') = length (ls_messages st) + 2 * (k + 1)
                 \<and> stop_reason r \<noteq> ''tool_use'')"
  using assms
proof (induction k arbitrary: st resp)
  case 0
  let ?st = "run_round st resp"
  from "0.prems"(3) have stop: "case create (ls_calls st) (ls_messages ?st) of
      Inl _ \<Rightarrow> True | Inr r \<Rightarrow> stop_reason r \<noteq> ''tool_use''"
    unfolding answers_stop_def by simp
  show ?case
  proof (cases "create (ls_calls st) (ls_messages ?st)")
    case (Inl e)
    with "0.prems"(1) show ?thesis
      by (subst tool_loop.simps) (simp add: run_round_calls)
  next
    case (Inr r)
    with stop have "stop_reason r \<noteq> ''tool_use''" by simp
    with Inr "0.prems"(1) show ?thesis
      by (subst tool_loop.simps)
         (simp add: run_round_calls run_round_messages tool_loop_stop)
  qed
next
  case (Suc k)
  let ?st = "(run_round st resp)\<lparr>ls_calls := Suc (ls_calls (run_round st resp))\<rparr>"
  from Suc.prems(2) have "answers_tool_use create (ls_calls st + 0)" by blast
  then obtain r where r: "create (ls_calls st) (ls_messages (run_round st resp)) = Inr r"
    and rt: "stop_reason r = ''tool_use''"
    unfolding answers_tool_use_def by auto
  have unfold: "tool_loop create st resp = tool_loop create ?st r"
    using Suc.prems(1) r by (subst tool_loop.simps) (simp add: run_round_calls)
  have "\<forall>j<k. answers_tool_use create (ls_calls ?st + j)"
    using Suc.prems(2) by (auto simp: run_round_calls)
  moreover have "answers_stop create (ls_calls ?st + k)"
    using Suc.prems(3) by (simp add: run_round_calls)
  ultimately obtain res where res: "tool_loop create ?st r = Some res"
    and after: "\<forall>r' st'. res = Inr (r', st') \<longrightarrow>
                 ls_calls st' = ls_calls ?st + k + 1
                 \<and> length (ls_messages st') = length (ls_messages ?st) + 2 * (k + 1)
                 \<and> stop_reason r' \<noteq> ''tool_use''"
    using Suc.IH [OF rt] by blast
  from after have "\<forall>r' st'. res = Inr (r', st') \<longrightarrow>
                 ls_calls st' = ls_calls st + Suc k + 1
                 \<and> length (ls_messages st') = length (ls_messages st) + 2 * (Suc k + 1)
                 \<and> stop_reason r' \<noteq> ''tool_use''"
    by (simp add: run_round_calls run_round_messages)
  with res unfold show ?case by auto
qed

lemma processVoiceCommand_forever:
  assumes "\<forall>j. answers_tool_use create j"
  shows "processVoiceCommand create userText normalized s = None"
proof -
  obtain w intentCache where s: "s = (w, intentCache)" by (cases s)
  from assms obtain r where r: "create 0 [UserText userText] = Inr r"
    and rt: "stop_reason r = ''tool_use''"
    unfolding answers_tool_use_def by blast
  have "tool_loop create
          \<lparr>ls_world = w, ls_messages = [UserText userText], ls_toolUsesSeen = [], ls_calls = 1\<rparr> r
        = None"
    using assms by (intro tool_loop_forever rt) simp
  with r s show ?thesis
    by (simp add: processVoiceCommand_def)
qed

text \<open>
  C9, as the code has it. The loop has no ceiling on the number of rounds. It returns at
  once on a response whose stop reason is not \<open>tool_use\<close>; when the response and the
  next \<open>k\<close> answers of the model ask for tools and the answer after them ends the loop,
  it returns after exactly \<open>k + 1\<close> rounds, for every \<open>k\<close>; when the model asks for tools
  at every call, the loop and \<open>processVoiceCommand\<close> never return.
\<close>

theorem tool_loop_rounds:
  "(stop_reason resp \<noteq> ''tool_use'' \<longrightarrow> tool_loop create st resp = Some (Inr (resp, st)))
   \<and> (stop_reason resp = ''tool_use'' \<and> (\<forall>j<k. answers_tool_use create (ls_calls st + j))
        \<and> answers_stop create (ls_calls st + k)
      \<longrightarrow> (\<exists>res. tool_loop create st resp = Some res
             \<and> (\<forall>r st'. res = Inr (r, st') \<longrightarrow>
                   ls_calls st' = ls_calls st + k + 1
                   \<and> length (ls_messages st') = length (ls_messages st) + 2 * (k + 1)
                   \<and> stop_reason r \<noteq> ''tool_use'')))
   \<and> (stop_reason resp = ''tool_use'' \<and> (\<forall>j. answers_tool_use create (ls_calls st + j))
      \<longrightarrow> tool_loop create st resp = None)
   \<and> ((\<forall>j. answers_tool_use create j)
      \<longrightarrow> processVoiceCommand create userText normalized s = None)"
  using tool_loop_stop [of resp create st] tool_loop_after [of resp k create st]
    tool_loop_forever [of resp create st]
    processVoiceCommand_forever [of create userText normalized s]
  by blast

theorem tool_loop_rounds_witness:
  "tool_loop
     (\<lambda>j msgs. if j < 3 then Inr \<lparr>stop_reason = ''tool_use'', content = []\<rparr>
               else Inr \<lparr>stop_reason = ''end_turn'', content = [TextBlock ''Done.'']\<rparr>)
     \<lparr>ls_world = (\<lparr>now = 0, bulk_replies = [], point_replies = [], post_replies = [],
                    bulk_fetches = 0, point_fetches = [], posted = []\<rparr>, createHAClient 5000),
      ls_messages = [UserText ''hello''], ls_toolUsesSeen = [], ls_calls = 1\<rparr>
     \<lparr>stop_reason = ''end_turn'', content = [TextBlock ''Done.'']\<rparr>
   = Some (Inr (\<lparr>stop_reason = ''end_turn'', content = [TextBlock ''Done.'']\<rparr>,
      \<lparr>ls_world = (\<lparr>now = 0, bulk_replies = [], point_replies = [], post_replies = [],
                    bulk_fetches = 0, point_fetches = [], posted = []\<rparr>, createHAClient 5000),
       ls_messages = [UserText ''hello''], ls_toolUsesSeen = [], ls_calls = 1\<rparr>))
   \<and> (\<exists>res. tool_loop
     (\<lambda>j msgs. if j < 3 then Inr \<lparr>stop_reason = ''tool_use'', content = []\<rparr>
               else Inr \<lparr>stop_reason = ''end_turn'', content = [TextBlock ''Done.'']\<rparr>)
     \<lparr>ls_world = (\<lparr>now = 0, bulk_replies = [], point_replies = [], post_replies = [],
                    bulk_fetches = 0, point_fetches = [], posted = []\<rparr>, createHAClient 5000),
      ls_messages = [UserText ''hello''], ls_toolUsesSeen = [], ls_calls = 1\<rparr>
     \<lparr>stop_reason = ''tool_use'', content = []\<rparr> = Some res)
   \<and> tool_loop (\<lambda>j msgs. Inr \<lparr>stop_reason = ''tool_use'', content = []\<rparr>)
     \<lparr>ls_world = (\<lparr>now = 0, bulk_replies = [], point_replies = [], post_replies = [],
                    bulk_fetches = 0, point_fetches = [], posted = []\<rparr>, createHAClient 5000),
      ls_messages = [UserText ''hello''], ls_toolUsesSeen = [], ls_calls = 1\<rparr>
     \<lparr>stop_reason = ''tool_use'', content = []\<rparr> = None
   \<and> processVoiceCommand (\<lambda>j msgs. Inr \<lparr>stop_reason = ''tool_use'', content = []\<rparr>)
       ''hello'' ''hello''
       ((\<lparr>now = 0, bulk_replies = [], point_replies = [], post_replies = [],
          bulk_fetches = 0, point_fetches = [], posted = []\<rparr>, createHAClient 5000),
        new_IntentCache 500 None) = None"
proof -
  let ?TU = "\<lparr>stop_reason = ''tool_use'', content = []\<rparr>"
  let ?FIN = "\<lparr>stop_reason = ''end_turn'', content = [TextBlock ''Done.'']\<rparr>"
  let ?C = "\<lambda>(j::nat) (msgs::message list). if j < 3 then Inr ?TU else (Inr ?FIN :: string + response)"
  let ?A = "\<lambda>(j::nat) (msgs::message list). (Inr ?TU :: string + response)"
  let ?W = "(\<lparr>now = 0, bulk_replies = [], point_replies = [], post_replies = [],
                    bulk_fetches = 0, point_fetches = [], posted = []\<rparr>, createHAClient 5000)"
  let ?ST = "\<lparr>ls_world = ?W, ls_messages = [UserText ''hello''], ls_toolUsesSeen = [],
             ls_calls = 1\<rparr>"
  have fin: "stop_reason ?FIN \<noteq> ''tool_use''" and tu: "stop_reason ?TU = ''tool_use''"
    by simp_all
  have c12: "\<forall>j<2. answers_tool_use ?C (ls_calls ?ST + j)"
    by (simp add: answers_tool_use_def)
  have c3: "answers_stop ?C (ls_calls ?ST + 2)"
    by (simp add: answers_stop_def)
  have always: "\<forall>j. answers_tool_use ?A j"
    by (simp add: answers_tool_use_def)
  have 1: "tool_loop ?C ?ST ?FIN = Some (Inr (?FIN, ?ST))"
    using tool_loop_rounds [where create = ?C and st = ?ST and resp = ?FIN,
        THEN conjunct1, rule_format, OF fin] .
  have 2: "\<exists>res. tool_loop ?C ?ST ?TU = Some res"
    using tool_loop_rounds [where create = ?C and st = ?ST and resp = ?TU and k = 2,
        THEN conjunct2, THEN conjunct1, rule_format, OF conjI, OF tu conjI, OF c12 c3]
    by blast
  have 3: "tool_loop ?A ?ST ?TU = None"
    using tool_loop_rounds [where create = ?A and st = ?ST and resp = ?TU,
        THEN conjunct2, THEN conjunct2, THEN conjunct1, rule_format, OF conjI, OF tu] always
    by blast
  have 4: "processVoiceCommand ?A ''hello'' ''hello'' (?W, new_IntentCache 500 None) = None"
    using tool_loop_rounds [where create = ?A and userText = "''hello''"
        and normalized = "''hello''" and s = "(?W, new_IntentCache 500 None)",
        THEN conjunct2, THEN conjunct2, THEN conjunct2] always
    by blast
  from 1 2 3 4 show ?thesis by (intro conjI)
qed

text \<open>
  The claim as stated fails: with a model that asks for tools at every call,
  \<open>processVoiceCommand\<close> runs round after round and raises no error.
\<close>

theorem tool_loop_no_ceiling:
  "processVoiceCommand (\<lambda>j msgs. Inr \<lparr>stop_reason = ''tool_use'', content = []\<rparr>)
       ''turn on the pool pump'' ''turn on pool pump''
       ((\<lparr>now = 0, bulk_replies = [], point_replies = [], post_replies = [],
          bulk_fetches = 0, point_fetches = [], posted = []\<rparr>, createHAClient 5000),
        new_IntentCache 500 (Some 604800000)) = None"
  by (rule processVoiceCommand_forever) (simp add: answers_tool_use_def)

section \<open>Properties of concurrent refreshes\<close>

lemma flight_okD:
  assumes "flight_ok ps g w k"
  shows "p < length ps \<Longrightarrow> ps ! p = None \<Longrightarrow> g = Some p"
    and "w n = Some (p, True) \<Longrightarrow> g = Some p"
    and "w n = Some (p, True) \<Longrightarrow> w m = Some (q, True) \<Longrightarrow> n = m"
    and "g = Some p \<Longrightarrow> p < length ps"
    and "g = Some p \<Longrightarrow> \<exists>n. w n = Some (p, True)"
    and "w n \<noteq> None \<Longrightarrow> n < k"
  using assms unfolding flight_ok_def by blast+

lemma flight_okI:
  assumes "\<And>p. p < length ps \<Longrightarrow> ps ! p = None \<Longrightarrow> g = Some p"
    and "\<And>n p. w n = Some (p, True) \<Longrightarrow> g = Some p"
    and "\<And>n m p q. w n = Some (p, True) \<Longrightarrow> w m = Some (q, True) \<Longrightarrow> n = m"
    and "\<And>p. g = Some p \<Longrightarrow> p < length ps"
    and "\<And>p. g = Some p \<Longrightarrow> \<exists>n. w n = Some (p, True)"
    and "\<And>n. w n \<noteq> None \<Longrightarrow> n < k"
  shows "flight_ok ps g w k"
  unfolding flight_ok_def using assms by blast

lemma ok_noop:
  assumes "flight_ok ps g w k"
  shows "flight_ok ps g w (Suc k)"
proof (rule flight_okI)
  fix n assume "w n \<noteq> None"
  then have "n < k" by (rule flight_okD(6) [OF assms])
  then show "n < Suc k" by simp
qed (use flight_okD [OF assms] in blast)+

lemma ok_join:
  assumes "flight_ok ps g w k"
  shows "flight_ok ps g (w(k \<mapsto> (p, False))) (Suc k)"
proof (rule flight_okI)
  have fresh: "w k = None"
  proof (rule ccontr)
    assume "w k \<noteq> None"
    then have "k < k" by (rule flight_okD(6) [OF assms])
    then show False by simp
  qed
  let ?w = "w(k \<mapsto> (p, False))"
  have old: "w n = Some (q, True)" if "?w n = Some (q, True)" for n q
    using that by (simp split: if_splits)
  show "g = Some q" if "q < length ps" "ps ! q = None" for q
    using that by (rule flight_okD(1) [OF assms])
  show "g = Some q" if "?w n = Some (q, True)" for n q
    using old [OF that] by (rule flight_okD(2) [OF assms])
  show "n = m" if "?w n = Some (q, True)" "?w m = Some (r, True)" for n m q r
    using old [OF that(1)] old [OF that(2)] by (rule flight_okD(3) [OF assms])
  show "q < length ps" if "g = Some q" for q
    using that by (rule flight_okD(4) [OF assms])
  show "\<exists>n. ?w n = Some (q, True)" if "g = Some q" for q
  proof -
    from flight_okD(5) [OF assms that] obtain n where n: "w n = Some (q, True)" ..
    with fresh have "n \<noteq> k" by auto
    with n have "?w n = Some (q, True)" by simp
    then show ?thesis ..
  qed
  show "n < Suc k" if "?w n \<noteq> None" for n
  proof (cases "n = k")
    case True
    then show ?thesis by simp
  next
    case False
    with that have "w n \<noteq> None" by simp
    from flight_okD(6) [OF assms this] show ?thesis by simp
  qed
qed

lemma ok_start:
  assumes "flight_ok ps None w k"
  shows "flight_ok (ps @ [None]) (Some (length ps)) (w(k \<mapsto> (length ps, True))) (Suc k)"
proof (rule flight_okI)
  let ?w = "w(k \<mapsto> (length ps, True))"
  have nopend: "ps ! p \<noteq> None" if "p < length ps" for p
    using flight_okD(1) [OF assms that] by auto
  have nocreator: "w n \<noteq> Some (p, True)" for n p
    using flight_okD(2) [OF assms, of n p] by auto
  have new: "n = k \<and> q = length ps" if "?w n = Some (q, True)" for n q
    using that nocreator [of n q] by (simp split: if_splits)
  show "Some (length ps) = Some p" if "p < length (ps @ [None])" "(ps @ [None]) ! p = None" for p
  proof (cases "p < length ps")
    case True
    with that(2) nopend [OF True] show ?thesis by (simp add: nth_append)
  next
    case False
    with that(1) show ?thesis by simp
  qed
  show "Some (length ps) = Some p" if "?w n = Some (p, True)" for n p
    using new [OF that] by simp
  show "n = m" if "?w n = Some (p, True)" "?w m = Some (q, True)" for n m p q
    using new [OF that(1)] new [OF that(2)] by simp
  show "p < length (ps @ [None])" if "Some (length ps) = Some p" for p
    using that by auto
  show "\<exists>n. ?w n = Some (p, True)" if "Some (length ps) = Some p" for p
  proof -
    from that have "?w k = Some (p, True)" by simp
    then show ?thesis ..
  qed
  show "n < Suc k" if "?w n \<noteq> None" for n
  proof (cases "n = k")
    case True
    then show ?thesis by simp
  next
    case False
    with that have "w n \<noteq> None" by simp
    from flight_okD(6) [OF assms this] show ?thesis by simp
  qed
qed

lemma ok_settle:
  assumes "flight_ok ps g w k"
  shows "flight_ok (ps[p := Some res]) g w k"
proof (rule flight_okI)
  show "g = Some q" if "q < length (ps[p := Some res])" "ps[p := Some res] ! q = None" for q
  proof -
    from that have "q < length ps" by simp
    moreover from that have "ps ! q = None"
      by (cases "q = p") simp_all
    ultimately show ?thesis by (rule flight_okD(1) [OF assms])
  qed
  show "q < length (ps[p := Some res])" if "g = Some q" for q
    using flight_okD(4) [OF assms that] by simp
qed (use flight_okD [OF assms] in blast)+

lemma ok_resume_joiner:
  assumes "flight_ok ps g w k" and "w n = Some (p, False)"
  shows "flight_ok ps g (w(n := None)) k"
proof (rule flight_okI)
  let ?w = "w(n := None)"
  have old: "w m = Some x" if "?w m = Some x" for m x
    using that by (simp split: if_splits)
  show "g = Some q" if "q < length ps" "ps ! q = None" for q
    using that by (rule flight_okD(1) [OF assms(1)])
  show "g = Some q" if "?w m = Some (q, True)" for m q
    using old [OF that] by (rule flight_okD(2) [OF assms(1)])
  show "m = m'" if "?w m = Some (q, True)" "?w m' = Some (r, True)" for m m' q r
    using old [OF that(1)] old [OF that(2)] by (rule flight_okD(3) [OF assms(1)])
  show "q < length ps" if "g = Some q" for q
    using that by (rule flight_okD(4) [OF assms(1)])
  show "\<exists>m. ?w m = Some (q, True)" if "g = Some q" for q
  proof -
    from flight_okD(5) [OF assms(1) that] obtain m where m: "w m = Some (q, True)" ..
    with assms(2) have "m \<noteq> n" by auto
    with m have "?w m = Some (q, True)" by simp
    then show ?thesis ..
  qed
  show "m < k" if "?w m \<noteq> None" for m
  proof -
    from that have "w m \<noteq> None" by (simp split: if_splits)
    then show ?thesis by (rule flight_okD(6) [OF assms(1)])
  qed
qed

lemma ok_resume_creator:
  assumes "flight_ok ps g w k" and "w n = Some (p, True)" and "ps ! p = Some res"
  shows "flight_ok ps None (w(n := None)) k"
proof (rule flight_okI)
  let ?w = "w(n := None)"
  have guard: "g = Some p"
    using assms(2) by (rule flight_okD(2) [OF assms(1)])
  have only: "m = n" if "w m = Some (q, True)" for m q
    using that assms(2) by (rule flight_okD(3) [OF assms(1)])
  have none: "?w m \<noteq> Some (q, True)" for m q
    using only [of m q] by auto
  show "None = Some q" if "q < length ps" "ps ! q = None" for q
  proof -
    from that have "g = Some q" by (rule flight_okD(1) [OF assms(1)])
    with guard that(2) assms(3) show ?thesis by simp
  qed
  show "None = Some q" if "?w m = Some (q, True)" for m q
    using that none [of m q] by simp
  show "m = m'" if "?w m = Some (q, True)" "?w m' = Some (r, True)" for m m' q r
    using that(1) none [of m q] by simp
  show "q < length ps" if "None = Some q" for q
    using that by simp
  show "\<exists>m. ?w m = Some (q, True)" if "None = Some q" for q
    using that by simp
  show "m < k" if "?w m \<noteq> None" for m
  proof -
    from that have "w m \<noteq> None" by (simp split: if_splits)
    then show ?thesis by (rule flight_okD(6) [OF assms(1)])
  qed
qed

lemma settle_refresh_guard:
  "settle_refresh reply t c = (res, c') \<Longrightarrow> refreshInFlight c' = refreshInFlight c"
  by (cases reply) (auto simp: settle_refresh_def indexStates_def)

text \<open>The three ways a call can go, and what each leaves.\<close>

lemma step_call_fresh:
  assumes "\<not> force" and "\<not> t - lastStatesRefreshAt (client s) > statesTtlMs (client s)"
  shows "step (Call force t) s
           = s\<lparr>calls := Suc (calls s), returned := (returned s)(calls s \<mapsto> Inr ())\<rparr>"
  using assms by simp

lemma step_call_join:
  assumes "force \<or> t - lastStatesRefreshAt (client s) > statesTtlMs (client s)"
    and "refreshInFlight (client s) = Some p"
  shows "step (Call force t) s
           = s\<lparr>calls := Suc (calls s), waiting := (waiting s)(calls s \<mapsto> (p, False))\<rparr>"
  using assms by (auto simp: Let_def)

lemma step_call_start:
  assumes "force \<or> t - lastStatesRefreshAt (client s) > statesTtlMs (client s)"
    and "refreshInFlight (client s) = None"
  shows "step (Call force t) s
           = s\<lparr>client := (client s)\<lparr>refreshInFlight := Some (length (promises s))\<rparr>,
               promises := promises s @ [None],
               fetches := Suc (fetches s),
               calls := Suc (calls s),
               waiting := (waiting s)(calls s \<mapsto> (length (promises s), True))\<rparr>"
  using assms by (auto simp: Let_def)

lemma flight_inv_call:
  assumes "flight_inv s"
  shows "flight_inv (step (Call force t) s)"
proof (cases "force \<or> t - lastStatesRefreshAt (client s) > statesTtlMs (client s)")
  case False
  then have "step (Call force t) s
      = s\<lparr>calls := Suc (calls s), returned := (returned s)(calls s \<mapsto> Inr ())\<rparr>"
    by (intro step_call_fresh) auto
  with ok_noop [OF assms [unfolded flight_inv_def]] show ?thesis
    by (simp add: flight_inv_def)
next
  case True
  show ?thesis
  proof (cases "refreshInFlight (client s)")
    case (Some p)
    from ok_join [OF assms [unfolded flight_inv_def], of p] step_call_join [OF True Some]
    show ?thesis by (simp add: flight_inv_def)
  next
    case None
    from ok_start [of "promises s" "waiting s" "calls s"] assms None
      step_call_start [OF True None]
    show ?thesis by (simp add: flight_inv_def)
  qed
qed

lemma flight_inv_settle:
  assumes "flight_inv s"
  shows "flight_inv (step (Settle p reply t) s)"
proof (cases "p < length (promises s) \<and> promises s ! p = None")
  case False
  with assms show ?thesis by auto
next
  case True
  obtain res c where sr: "settle_refresh reply t (client s) = (res, c)"
    by (cases "settle_refresh reply t (client s)")
  have st: "step (Settle p reply t) s = s\<lparr>client := c, promises := (promises s)[p := Some res]\<rparr>"
    using True sr by simp
  from ok_settle [OF assms [unfolded flight_inv_def], of p res] settle_refresh_guard [OF sr]
  show ?thesis
    unfolding st by (simp add: flight_inv_def)
qed

lemma step_resume:
  assumes "waiting s n = Some (p, creator)" and "p < length (promises s)"
    and "promises s ! p = Some res"
  shows "step (Resume n) s
           = s\<lparr>client := (if creator then (client s)\<lparr>refreshInFlight := None\<rparr> else client s),
               waiting := (waiting s)(n := None),
               returned := (returned s)(n \<mapsto> res)\<rparr>"
  using assms by simp

lemma step_resume_idle:
  assumes "waiting s n = None
           \<or> (\<exists>p creator. waiting s n = Some (p, creator)
                 \<and> (\<not> p < length (promises s) \<or> promises s ! p = None))"
  shows "step (Resume n) s = s"
  using assms by (auto split: option.splits)

lemma flight_inv_resume:
  assumes "flight_inv s"
  shows "flight_inv (step (Resume n) s)"
proof (cases "\<exists>p creator res. waiting s n = Some (p, creator) \<and> p < length (promises s)
                \<and> promises s ! p = Some res")
  case False
  then have "step (Resume n) s = s"
    by (intro step_resume_idle) (cases "waiting s n"; force)
  with assms show ?thesis by simp
next
  case True
  then obtain p creator res where w: "waiting s n = Some (p, creator)"
    and p: "p < length (promises s)" and res: "promises s ! p = Some res"
    by blast
  note st = step_resume [OF w p res]
  show ?thesis
  proof (cases creator)
    case True
    with w have w': "waiting s n = Some (p, True)" by simp
    from ok_resume_creator [OF assms [unfolded flight_inv_def] w' res]
    show ?thesis unfolding st by (simp add: flight_inv_def True)
  next
    case False
    with w have w': "waiting s n = Some (p, False)" by simp
    from ok_resume_joiner [OF assms [unfolded flight_inv_def] w']
    show ?thesis unfolding st by (simp add: flight_inv_def False)
  qed
qed

lemma flight_inv_init: "flight_inv (init_sys ttl)"
  by (simp add: flight_inv_def flight_ok_def init_sys_def createHAClient_def)

lemma flight_inv_step: "flight_inv s \<Longrightarrow> flight_inv (step ev s)"
  by (cases ev) (simp_all only: flight_inv_call flight_inv_settle flight_inv_resume)

lemma flight_inv_run: "flight_inv s \<Longrightarrow> flight_inv (run evs s)"
  unfolding run_def by (induction evs arbitrary: s) (simp_all add: flight_inv_step)

lemma two_of_filter:
  "Suc 0 < length (filter P xs) \<Longrightarrow> \<exists>i j. i < j \<and> j < length xs \<and> P (xs ! i) \<and> P (xs ! j)"
proof (induction xs)
  case Nil
  then show ?case by simp
next
  case (Cons x xs)
  show ?case
  proof (cases "P x")
    case True
    with Cons.prems have "filter P xs \<noteq> []" by auto
    then obtain y where "y \<in> set xs" "P y"
      by (auto simp: filter_empty_conv)
    then obtain j where "j < length xs" "P (xs ! j)"
      by (auto simp: in_set_conv_nth)
    with True have "0 < Suc j \<and> Suc j < length (x # xs) \<and> P ((x # xs) ! 0) \<and> P ((x # xs) ! Suc j)"
      by simp
    then show ?thesis by blast
  next
    case False
    with Cons obtain i j where "i < j" "j < length xs" "P (xs ! i)" "P (xs ! j)"
      by auto
    then have "Suc i < Suc j \<and> Suc j < length (x # xs) \<and> P ((x # xs) ! Suc i)
        \<and> P ((x # xs) ! Suc j)"
      by simp
    then show ?thesis by blast
  qed
qed

lemma outstanding_le_1:
  assumes "flight_inv s"
  shows "outstanding s \<le> 1"
proof (rule ccontr)
  assume "\<not> outstanding s \<le> 1"
  then have "1 < length (filter (\<lambda>x. x = None) (promises s))"
    by (simp add: outstanding_def)
  then obtain i j where ij: "i < j" "j < length (promises s)"
    "promises s ! i = None" "promises s ! j = None"
    using two_of_filter [of "\<lambda>x. x = None" "promises s"] by auto
  note d = flight_okD(1) [OF assms [unfolded flight_inv_def]]
  from ij have "i < length (promises s)" by simp
  from d [OF this ij(3)] d [OF ij(2) ij(4)] ij(1) show False by simp
qed

lemma step_settle_pending:
  assumes "p < length (promises s)" and "promises s ! p = None"
  shows "step (Settle p reply t) s
           = s\<lparr>client := snd (settle_refresh reply t (client s)),
               promises := (promises s)[p := Some (fst (settle_refresh reply t (client s)))]\<rparr>"
  using assms by (simp split: prod.splits)

lemma call_with_guard:
  assumes "refreshInFlight (client s) \<noteq> None"
  shows "fetches (step (Call force t) s) = fetches s
         \<and> promises (step (Call force t) s) = promises s"
proof (cases "force \<or> t - lastStatesRefreshAt (client s) > statesTtlMs (client s)")
  case True
  from assms obtain p where "refreshInFlight (client s) = Some p" by auto
  from step_call_join [OF True this] show ?thesis by simp
next
  case False
  then have "step (Call force t) s
      = s\<lparr>calls := Suc (calls s), returned := (returned s)(calls s \<mapsto> Inr ())\<rparr>"
    by (intro step_call_fresh) auto
  then show ?thesis by simp
qed

lemma call_joins:
  assumes "refreshInFlight (client s) = Some p"
    and "force \<or> t - lastStatesRefreshAt (client s) > statesTtlMs (client s)"
  shows "waiting (step (Call force t) s) (calls s) = Some (p, False)
         \<and> returned (step (Call force t) s) = returned s"
  using step_call_join [OF assms(2,1)] by simp

lemma call_fresh_returns:
  assumes "flight_inv s" and "\<not> force"
    and "\<not> t - lastStatesRefreshAt (client s) > statesTtlMs (client s)"
  shows "returned (step (Call force t) s) (calls s) = Some (Inr ())
         \<and> waiting (step (Call force t) s) (calls s) = None
         \<and> fetches (step (Call force t) s) = fetches s"
proof -
  have "waiting s (calls s) = None"
  proof (rule ccontr)
    assume "waiting s (calls s) \<noteq> None"
    from flight_okD(6) [OF assms(1) [unfolded flight_inv_def] this] show False by simp
  qed
  with step_call_fresh [OF assms(2,3)] show ?thesis by simp
qed

lemma settle_then_resume:
  assumes "waiting s n = Some (p, creator)" and "p < length (promises s)"
    and "promises s ! p = None"
  shows "returned (step (Resume n) (step (Settle p reply t) s)) n
           = Some (fst (settle_refresh reply t (client s)))
         \<and> (creator \<longrightarrow>
              refreshInFlight (client (step (Resume n) (step (Settle p reply t) s))) = None
              \<and> fetches (step (Call True t') (step (Resume n) (step (Settle p reply t) s)))
                  = Suc (fetches s))"
proof -
  define s1 where "s1 = step (Settle p reply t) s"
  define s2 where "s2 = step (Resume n) s1"
  let ?res = "fst (settle_refresh reply t (client s))"
  have s1: "s1 = s\<lparr>client := snd (settle_refresh reply t (client s)),
                      promises := (promises s)[p := Some ?res]\<rparr>"
    unfolding s1_def by (rule step_settle_pending [OF assms(2,3)])
  have w1: "waiting s1 n = Some (p, creator)" and p1: "p < length (promises s1)"
    and r1: "promises s1 ! p = Some ?res" and f1: "fetches s1 = fetches s"
    using assms by (simp_all add: s1)
  have s2: "s2 = s1\<lparr>client := (if creator then (client s1)\<lparr>refreshInFlight := None\<rparr>
                                  else client s1),
                      waiting := (waiting s1)(n := None),
                      returned := (returned s1)(n \<mapsto> ?res)\<rparr>"
    unfolding s2_def by (rule step_resume [OF w1 p1 r1])
  have ret: "returned s2 n = Some ?res"
    by (simp add: s2)
  have cre: "refreshInFlight (client s2) = None
      \<and> fetches (step (Call True t') s2) = Suc (fetches s)" if creator
  proof -
    have g: "refreshInFlight (client s2) = None"
      using that by (simp add: s2)
    have f2: "fetches s2 = fetches s"
      using f1 by (simp add: s2)
    have "fetches (step (Call True t') s2) = Suc (fetches s2)"
      by (subst step_call_start [where force = True and t = t' and s = s2, OF _ g]) simp_all
    with g f2 show ?thesis by simp
  qed
  from ret cre show ?thesis unfolding s2_def s1_def by blast
qed

text \<open>
  C8, as the code has it. In every state that calls, replies and continuations lead to,
  at most one hub request is without reply, and while one is, \<open>refreshInFlight\<close> is
  set. A call of \<open>refreshStates\<close> that finds \<open>refreshInFlight\<close> set issues no hub
  request: forced, or with a stale snapshot, it waits for that promise and ends with its
  outcome; not forced and with a fresh snapshot it returns at once without waiting. When
  the reply comes, whether it is good or not, the continuation of the call that issued
  the request clears \<open>refreshInFlight\<close>, and the next forced call issues a new request.
\<close>

theorem single_flight:
  "outstanding (run evs (init_sys ttl)) \<le> 1
   \<and> (outstanding (run evs (init_sys ttl)) = 1
        \<longrightarrow> refreshInFlight (client (run evs (init_sys ttl))) \<noteq> None)
   \<and> (refreshInFlight (client (run evs (init_sys ttl))) \<noteq> None
        \<longrightarrow> fetches (step (Call force t) (run evs (init_sys ttl)))
              = fetches (run evs (init_sys ttl))
            \<and> outstanding (step (Call force t) (run evs (init_sys ttl)))
              = outstanding (run evs (init_sys ttl)))
   \<and> (refreshInFlight (client (run evs (init_sys ttl))) = Some p
        \<and> (force \<or> t - lastStatesRefreshAt (client (run evs (init_sys ttl)))
                      > statesTtlMs (client (run evs (init_sys ttl))))
        \<longrightarrow> waiting (step (Call force t) (run evs (init_sys ttl)))
                (calls (run evs (init_sys ttl))) = Some (p, False))
   \<and> (\<not> force \<and> \<not> t - lastStatesRefreshAt (client (run evs (init_sys ttl)))
                      > statesTtlMs (client (run evs (init_sys ttl)))
        \<longrightarrow> returned (step (Call force t) (run evs (init_sys ttl)))
                (calls (run evs (init_sys ttl))) = Some (Inr ())
            \<and> waiting (step (Call force t) (run evs (init_sys ttl)))
                (calls (run evs (init_sys ttl))) = None
            \<and> fetches (step (Call force t) (run evs (init_sys ttl)))
                = fetches (run evs (init_sys ttl)))
   \<and> (waiting (run evs (init_sys ttl)) n = Some (q, creator)
        \<and> q < length (promises (run evs (init_sys ttl)))
        \<and> promises (run evs (init_sys ttl)) ! q = None
        \<longrightarrow> returned (step (Resume n) (step (Settle q reply t1) (run evs (init_sys ttl)))) n
              = Some (fst (settle_refresh reply t1 (client (run evs (init_sys ttl)))))
            \<and> (creator \<longrightarrow>
                 refreshInFlight (client (step (Resume n)
                     (step (Settle q reply t1) (run evs (init_sys ttl))))) = None
                 \<and> fetches (step (Call True t2) (step (Resume n)
                     (step (Settle q reply t1) (run evs (init_sys ttl)))))
                   = Suc (fetches (run evs (init_sys ttl)))))
   \<and> (refreshInFlight (client (run evs (init_sys ttl))) = Some p
        \<longrightarrow> (\<exists>m. waiting (run evs (init_sys ttl)) m = Some (p, True)))"
proof -
  let ?s = "run evs (init_sys ttl)"
  have inv: "flight_inv ?s"
    by (rule flight_inv_run) (rule flight_inv_init)
  note ok = inv [unfolded flight_inv_def]
  have a: "outstanding ?s \<le> 1"
    by (rule outstanding_le_1 [OF inv])
  have b: "refreshInFlight (client ?s) \<noteq> None" if "outstanding ?s = 1"
  proof -
    from that have "filter (\<lambda>x. x = None) (promises ?s) \<noteq> []"
      by (auto simp: outstanding_def)
    then obtain x where "x \<in> set (promises ?s)" "x = None"
      by (auto simp: filter_empty_conv)
    then obtain i where "i < length (promises ?s)" "promises ?s ! i = None"
      by (auto simp: in_set_conv_nth)
    from flight_okD(1) [OF ok this] show ?thesis by simp
  qed
  have c: "fetches (step (Call force t) ?s) = fetches ?s
      \<and> outstanding (step (Call force t) ?s) = outstanding ?s"
    if "refreshInFlight (client ?s) \<noteq> None"
    using call_with_guard [OF that, of force t] by (simp add: outstanding_def)
  have d: "waiting (step (Call force t) ?s) (calls ?s) = Some (p, False)"
    if "refreshInFlight (client ?s) = Some p"
      "force \<or> t - lastStatesRefreshAt (client ?s) > statesTtlMs (client ?s)"
    using call_joins [OF that] by blast
  have e: "returned (step (Call force t) ?s) (calls ?s) = Some (Inr ())
      \<and> waiting (step (Call force t) ?s) (calls ?s) = None
      \<and> fetches (step (Call force t) ?s) = fetches ?s"
    if "\<not> force" "\<not> t - lastStatesRefreshAt (client ?s) > statesTtlMs (client ?s)"
    using call_fresh_returns [OF inv that] .
  note f = settle_then_resume [of ?s n q creator reply t1 t2]
  have g: "\<exists>m. waiting ?s m = Some (p, True)" if "refreshInFlight (client ?s) = Some p"
    using flight_okD(5) [OF ok that] .
  from a b c d e f g show ?thesis by blast
qed

theorem single_flight_witness:
  "fetches (step (Call True 100001) (run [Call True 100000] (init_sys 5000)))
     = fetches (run [Call True 100000] (init_sys 5000))
   \<and> waiting (step (Call True 100001) (run [Call True 100000] (init_sys 5000)))
       (calls (run [Call True 100000] (init_sys 5000))) = Some (0, False)
   \<and> returned (step (Resume 0) (step (Settle 0 (FetchRejected ''timeout'') 100500)
       (run [Call True 100000] (init_sys 5000)))) 0
     = Some (Inl (NetworkFailure ''timeout''))
   \<and> refreshInFlight (client (step (Resume 0) (step (Settle 0 (FetchRejected ''timeout'') 100500)
       (run [Call True 100000] (init_sys 5000))))) = None
   \<and> fetches (step (Call True 100600) (step (Resume 0)
       (step (Settle 0 (FetchRejected ''timeout'') 100500)
         (run [Call True 100000] (init_sys 5000))))) = 2
   \<and> returned (step (Call False 100020)
         (run [Call True 100000, Settle 0 (HttpOk []) 100010, Resume 0] (init_sys 5000)))
       (calls (run [Call True 100000, Settle 0 (HttpOk []) 100010, Resume 0] (init_sys 5000)))
     = Some (Inr ())
   \<and> (\<exists>m. waiting (run [Call True 100000] (init_sys 5000)) m = Some (0, True))
   \<and> outstanding (run [Call True 100000] (init_sys 5000)) = 1
   \<and> refreshInFlight (client (run [Call True 100000] (init_sys 5000))) \<noteq> None"
proof -
  let ?s1 = "run [Call True 100000] (init_sys 5000)"
  let ?s3 = "run [Call True 100000, Settle 0 (HttpOk []) 100010, Resume 0] (init_sys 5000)"
  have s1: "refreshInFlight (client ?s1) = Some 0" "waiting ?s1 0 = Some (0, True)"
    "promises ?s1 = [None]" "fetches ?s1 = 1"
    by (simp_all add: run_def init_sys_def createHAClient_def)
  have s3: "lastStatesRefreshAt (client ?s3) = 100010" "statesTtlMs (client ?s3) = 5000"
    by (simp_all add: run_def init_sys_def createHAClient_def settle_refresh_def indexStates_def)
  note i1 = single_flight [where evs = "[Call True 100000]" and ttl = 5000 and force = True
      and t = 100001 and p = 0 and n = 0 and q = 0 and creator = True
      and reply = "FetchRejected ''timeout''" and ?t1.0 = 100500 and ?t2.0 = 100600]
  note i3 = single_flight [where evs = "[Call True 100000, Settle 0 (HttpOk []) 100010, Resume 0]"
      and ttl = 5000 and force = False and t = 100020]
  have g: "refreshInFlight (client ?s1) \<noteq> None"
    and pend: "0 < length (promises ?s1)" "promises ?s1 ! 0 = None"
    by (simp_all add: s1)
  have 1: "fetches (step (Call True 100001) ?s1) = fetches ?s1"
    using i1 g by blast
  have 2: "waiting (step (Call True 100001) ?s1) (calls ?s1) = Some (0, False)"
    using i1 s1(1) by blast
  have 7: "\<exists>m. waiting ?s1 m = Some (0, True)"
    using i1 s1(1) by blast
  have "returned (step (Resume 0) (step (Settle 0 (FetchRejected ''timeout'') 100500) ?s1)) 0
          = Some (fst (settle_refresh (FetchRejected ''timeout'') 100500 (client ?s1)))
        \<and> refreshInFlight (client (step (Resume 0)
              (step (Settle 0 (FetchRejected ''timeout'') 100500) ?s1))) = None
        \<and> fetches (step (Call True 100600) (step (Resume 0)
              (step (Settle 0 (FetchRejected ''timeout'') 100500) ?s1))) = Suc (fetches ?s1)"
    using i1 s1(2) pend by blast
  then have 3: "returned (step (Resume 0) (step (Settle 0 (FetchRejected ''timeout'') 100500) ?s1)) 0
          = Some (Inl (NetworkFailure ''timeout''))"
    and 4: "refreshInFlight (client (step (Resume 0)
              (step (Settle 0 (FetchRejected ''timeout'') 100500) ?s1))) = None"
    and 5: "fetches (step (Call True 100600) (step (Resume 0)
              (step (Settle 0 (FetchRejected ''timeout'') 100500) ?s1))) = 2"
    by (simp_all only: settle_refresh_def s1(4) http_reply.case fst_conv)
  have fresh: "\<not> False" "\<not> 100020 - lastStatesRefreshAt (client ?s3) > statesTtlMs (client ?s3)"
    by (simp_all add: s3)
  have 6: "returned (step (Call False 100020) ?s3) (calls ?s3) = Some (Inr ())"
    using i3 fresh by blast
  have 8: "outstanding ?s1 = 1"
    by (simp add: outstanding_def s1(3))
  have 9: "refreshInFlight (client ?s1) \<noteq> None"
    using i1 8 by blast
  from 1 2 3 4 5 6 7 8 9 show ?thesis by (intro conjI)
qed

text \<open>
  The claim as stated fails for a call that is not forced while the snapshot is fresh.
  After a first refresh at time 100010, a forced call at 100020 issues a request; a call
  at 100030 that is not forced returns at once with success and waits for nothing, and
  the request in flight then fails.
\<close>

theorem fresh_call_does_not_join:
  "outstanding (run [Call True 100000, Settle 0 (HttpOk []) 100010, Resume 0,
                     Call True 100020, Call False 100030] (init_sys 5000)) = 1
   \<and> returned (run [Call True 100000, Settle 0 (HttpOk []) 100010, Resume 0,
                     Call True 100020, Call False 100030] (init_sys 5000)) 2 = Some (Inr ())
   \<and> waiting (run [Call True 100000, Settle 0 (HttpOk []) 100010, Resume 0,
                     Call True 100020, Call False 100030] (init_sys 5000)) 2 = None
   \<and> promises (run [Call True 100000, Settle 0 (HttpOk []) 100010, Resume 0,
                     Call True 100020, Call False 100030,
                     Settle 1 (FetchRejected ''timeout'') 106020] (init_sys 5000)) ! 1
       = Some (Inl (NetworkFailure ''timeout''))
   \<and> returned (run [Call True 100000, Settle 0 (HttpOk []) 100010, Resume 0,
                     Call True 100020, Call False 100030,
                     Settle 1 (FetchRejected ''timeout'') 106020, Resume 1, Resume 2]
                 (init_sys 5000)) 2 = Some (Inr ())"
  by (simp add: run_def init_sys_def createHAClient_def settle_refresh_def indexStates_def
      outstanding_def)

section \<open>Properties of the normalizer\<close>

subsection \<open>Word runs\<close>

lemma emit_Nil [simp]: "emit [] = []"
  by (simp add: emit_def)

lemma wr_append_word: "\<forall>c \<in> set u. is_word_char c \<Longrightarrow> wr cur (u @ s) = wr (cur @ u) s"
  by (induction u arbitrary: cur) simp_all

lemma wr_split:
  "wr cur s = emit (cur @ takeWhile is_word_char s) @ wr [] (dropWhile is_word_char s)"
proof (induction s arbitrary: cur)
  case Nil
  then show ?case by (simp add: emit_def)
next
  case (Cons c cs)
  show ?case
  proof (cases "is_word_char c")
    case True
    then show ?thesis using Cons [of "cur @ [c]"] by simp
  next
    case False
    then show ?thesis by simp
  qed
qed

lemma wr_nonword_all: "\<forall>c \<in> set z. \<not> is_word_char c \<Longrightarrow> wr cur z = emit cur"
  by (induction z arbitrary: cur) (simp_all add: emit_def)

lemma wr_append_nonword: "\<forall>c \<in> set z. \<not> is_word_char c \<Longrightarrow> wr cur (y @ z) = wr cur y"
  by (induction y arbitrary: cur) (simp_all add: wr_nonword_all)

lemma wr_dropWhile_nonword:
  "(\<And>c. Q c \<Longrightarrow> \<not> is_word_char c) \<Longrightarrow> wr [] (dropWhile Q s) = wr [] s"
  by (induction s) (auto simp: emit_def)

lemma space_not_word: "is_space c \<Longrightarrow> \<not> is_word_char c"
  by (auto simp: is_space_def is_word_char_def)

lemma runs_trim: "runs (trim s) = runs s"
proof -
  let ?F = "dropWhile is_space s"
  have F: "?F = rev (dropWhile is_space (rev ?F)) @ rev (takeWhile is_space (rev ?F))"
    by (metis rev_append rev_rev_ident takeWhile_dropWhile_id)
  have "\<forall>c \<in> set (rev (takeWhile is_space (rev ?F))). \<not> is_word_char c"
    using space_not_word by (auto dest: set_takeWhileD)
  from wr_append_nonword [OF this, of "[]" "rev (dropWhile is_space (rev ?F))"] F
  have "wr [] (trim s) = wr [] ?F"
    by (simp add: trim_def)
  also have "\<dots> = wr [] s"
    by (rule wr_dropWhile_nonword) (rule space_not_word)
  finally show ?thesis by (simp add: runs_def)
qed

subsection \<open>Deleting a word between word boundaries\<close>

text \<open>
  From here on \<open>replace_g\<close> is unfolded by hand: the lemmas below say what one step
  of the scan does for each pattern.
\<close>

lemma hd_dropWhile_nonword: "\<not> is_word_opt (hd_opt (dropWhile is_word_char s))"
  by (induction s) (simp_all add: hd_opt_def is_word_opt_def)

lemma takeWhile_dropWhile_same [simp]: "takeWhile P (dropWhile P s) = []"
  by (induction s) simp_all

lemma dropWhile_dropWhile_same [simp]: "dropWhile P (dropWhile P s) = dropWhile P s"
  by (induction s) simp_all

declare replace_g.simps [simp del]

lemma match_word_Nil: "wordlike w \<Longrightarrow> match_word w r prev [] = None"
  by (simp add: match_word_def wordlike_def)

lemma match_word_inside:
  "wordlike w \<Longrightarrow> is_word_opt prev \<Longrightarrow> is_word_char c \<Longrightarrow> match_word w r prev (c # cs) = None"
  by (simp add: match_word_def at_boundary_def hd_opt_def is_word_opt_def)

lemma match_word_nonword:
  assumes "wordlike w" and "\<not> is_word_char c"
  shows "match_word w r prev (c # cs) = None"
proof -
  from assms(1) obtain a w' where w: "w = a # w'" and "is_word_char a"
    by (cases w) (auto simp: wordlike_def)
  with assms(2) have "\<not> prefix w (c # cs)" by auto
  then show ?thesis by (simp add: match_word_def)
qed

lemma takeWhile_is_word:
  assumes "wordlike w"
  shows "(prefix w s \<and> \<not> is_word_opt (hd_opt (drop (length w) s)))
           = (takeWhile is_word_char s = w)"
proof
  assume "prefix w s \<and> \<not> is_word_opt (hd_opt (drop (length w) s))"
  then obtain rest where s: "s = w @ rest" and rest: "\<not> is_word_opt (hd_opt rest)"
    by (auto simp: prefix_def)
  from rest have "takeWhile is_word_char rest = []"
    by (cases rest) (simp_all add: hd_opt_def is_word_opt_def)
  with assms s show "takeWhile is_word_char s = w"
    by (simp add: wordlike_def takeWhile_append2)
next
  assume tw: "takeWhile is_word_char s = w"
  have s: "s = w @ dropWhile is_word_char s"
    using takeWhile_dropWhile_id [of is_word_char s] tw by simp
  then have "drop (length w) s = dropWhile is_word_char s"
    by (metis append_eq_conv_conj)
  moreover have "\<not> is_word_opt (hd_opt (dropWhile is_word_char s))"
    by (rule hd_dropWhile_nonword)
  ultimately show "prefix w s \<and> \<not> is_word_opt (hd_opt (drop (length w) s))"
    using s by (metis prefixI)
qed

lemma match_word_start:
  assumes "wordlike w" and "\<not> is_word_opt prev" and "is_word_char c"
  shows "match_word w r prev (c # cs)
           = (if takeWhile is_word_char (c # cs) = w then Some (length w, r) else None)"
proof -
  have last: "is_word_opt (Some (last w))" and ne: "w \<noteq> []"
    using assms(1) by (auto simp: wordlike_def is_word_opt_def)
  have "at_boundary prev (hd_opt (c # cs))"
    using assms(2,3) by (simp add: at_boundary_def hd_opt_def is_word_opt_def)
  moreover have "at_boundary (Some (last w)) x = (\<not> is_word_opt x)" for x
    using last by (simp add: at_boundary_def)
  ultimately show ?thesis
    using takeWhile_is_word [OF assms(1), of "c # cs"] ne
    by (simp add: match_word_def)
qed

lemma copy_run:
  assumes "wordlike w" and "is_word_opt prev"
  shows "replace_g (match_word w r) prev s
           = takeWhile is_word_char s
             @ replace_g (match_word w r) None (dropWhile is_word_char s)"
  using assms(2)
proof (induction s arbitrary: prev)
  case Nil
  then show ?case by (simp add: replace_g.simps match_word_Nil [OF assms(1)])
next
  case (Cons c cs)
  show ?case
  proof (cases "is_word_char c")
    case True
    have "replace_g (match_word w r) prev (c # cs) = c # replace_g (match_word w r) (Some c) cs"
      by (simp add: replace_g.simps match_word_inside [OF assms(1) Cons.prems True])
    also have "replace_g (match_word w r) (Some c) cs
        = takeWhile is_word_char cs @ replace_g (match_word w r) None (dropWhile is_word_char cs)"
      by (rule Cons.IH) (simp add: is_word_opt_def True)
    finally show ?thesis using True by simp
  next
    case False
    then show ?thesis
      by (simp add: replace_g.simps match_word_nonword [OF assms(1) False])
  qed
qed

lemma scan_nonword:
  assumes "wordlike w" and "\<not> is_word_char c"
  shows "replace_g (match_word w r) prev (c # cs) = c # replace_g (match_word w r) None cs"
proof -
  have "replace_g (match_word w r) prev (c # cs) = c # replace_g (match_word w r) (Some c) cs"
    by (simp add: replace_g.simps match_word_nonword [OF assms])
  also have "replace_g (match_word w r) (Some c) cs = replace_g (match_word w r) None cs"
  proof (cases cs)
    case Nil
    then show ?thesis by (simp add: replace_g.simps match_word_Nil [OF assms(1)])
  next
    case (Cons d ds)
    have "match_word w r (Some c) (d # ds) = match_word w r None (d # ds)"
      using assms by (simp add: match_word_def at_boundary_def is_word_opt_def wordlike_def)
    then show ?thesis using Cons by (simp add: replace_g.simps)
  qed
  finally show ?thesis .
qed

lemma scan_run:
  assumes "wordlike w" and "is_word_char c"
  shows "replace_g (match_word w r) None (c # cs)
           = (if takeWhile is_word_char (c # cs) = w then r else takeWhile is_word_char (c # cs))
             @ replace_g (match_word w r) None (dropWhile is_word_char cs)"
proof (cases "takeWhile is_word_char (c # cs) = w")
  case True
  have s: "c # cs = w @ dropWhile is_word_char (c # cs)"
    using takeWhile_dropWhile_id [of is_word_char "c # cs"] True by simp
  then have d: "drop (length w) (c # cs) = dropWhile is_word_char (c # cs)"
    by (metis append_eq_conv_conj)
  have t: "take (length w) (c # cs) = w"
    using s by (metis append_eq_conv_conj)
  have m: "match_word w r None (c # cs) = Some (length w, r)"
    using match_word_start [OF assms(1) _ assms(2), of None r cs] True
    by (simp add: is_word_opt_def)
  have ne: "length w \<noteq> 0" using assms(1) by (simp add: wordlike_def)
  have "replace_g (match_word w r) None (c # cs)
      = r @ replace_g (match_word w r) (Some (last w)) (dropWhile is_word_char (c # cs))"
    using m ne d t by (simp add: replace_g.simps)
  also have "replace_g (match_word w r) (Some (last w)) (dropWhile is_word_char (c # cs))
      = replace_g (match_word w r) None (dropWhile is_word_char (c # cs))"
    using copy_run [OF assms(1), of "Some (last w)" r "dropWhile is_word_char (c # cs)"] assms(1)
    by (simp add: wordlike_def is_word_opt_def)
  finally show ?thesis using True assms(2) by simp
next
  case False
  have "match_word w r None (c # cs) = None"
    using match_word_start [OF assms(1) _ assms(2), of None r cs] False
    by (simp add: is_word_opt_def)
  then have "replace_g (match_word w r) None (c # cs)
      = c # replace_g (match_word w r) (Some c) cs"
    by (simp add: replace_g.simps)
  also have "replace_g (match_word w r) (Some c) cs
      = takeWhile is_word_char cs @ replace_g (match_word w r) None (dropWhile is_word_char cs)"
    by (rule copy_run [OF assms(1)]) (simp add: is_word_opt_def assms(2))
  finally show ?thesis using False assms(2) by simp
qed

lemma scan_starts_nonword:
  assumes "wordlike w" and "takeWhile is_word_char z = []"
  shows "takeWhile is_word_char (replace_g (match_word w r) None z) = []"
proof (cases z)
  case Nil
  then show ?thesis by (simp add: replace_g.simps match_word_Nil [OF assms(1)])
next
  case (Cons c cs)
  with assms(2) have "\<not> is_word_char c" by (simp split: if_splits)
  with Cons show ?thesis by (simp add: scan_nonword [OF assms(1)])
qed

lemma runs_run_start:
  assumes "is_word_char c"
  shows "runs (c # cs) = takeWhile is_word_char (c # cs) # runs (dropWhile is_word_char cs)"
  using wr_split [of "[]" "c # cs"] assms by (simp add: runs_def emit_def)

lemma runs_nonword_start: "\<not> is_word_char c \<Longrightarrow> runs (c # cs) = runs cs"
  by (simp add: runs_def)

lemma runs_run_append:
  assumes "u \<noteq> []" and "\<forall>c \<in> set u. is_word_char c" and "takeWhile is_word_char x = []"
  shows "runs (u @ x) = u # runs x"
proof -
  have "dropWhile is_word_char x = x"
    using takeWhile_dropWhile_id [of is_word_char x] assms(3) by simp
  with wr_split [of u x] assms show ?thesis
    by (simp add: runs_def wr_append_word emit_def)
qed

lemma runs_delete:
  assumes "wordlike w"
  shows "runs (replace_g (match_word w []) None s) = filter (\<lambda>u. u \<noteq> w) (runs s)"
proof (induction "length s" arbitrary: s rule: less_induct)
  case less
  show ?case
  proof (cases s)
    case Nil
    then show ?thesis by (simp add: replace_g.simps match_word_Nil [OF assms] runs_def)
  next
    case (Cons c cs)
    show ?thesis
    proof (cases "is_word_char c")
      case False
      have "runs (replace_g (match_word w []) None cs) = filter (\<lambda>u. u \<noteq> w) (runs cs)"
        by (rule less) (simp add: Cons)
      with False Cons show ?thesis
        by (simp add: scan_nonword [OF assms] runs_nonword_start)
    next
      case True
      let ?u = "takeWhile is_word_char (c # cs)"
      let ?rest = "dropWhile is_word_char cs"
      let ?X = "replace_g (match_word w []) None ?rest"
      have "length ?rest < length s"
        using Cons by (simp add: le_imp_less_Suc length_dropWhile_le)
      then have IH: "runs ?X = filter (\<lambda>u. u \<noteq> w) (runs ?rest)"
        by (rule less)
      have out: "replace_g (match_word w []) None (c # cs) = (if ?u = w then [] else ?u) @ ?X"
        by (rule scan_run [OF assms True])
      have rs: "runs (c # cs) = ?u # runs ?rest"
        by (rule runs_run_start [OF True])
      show ?thesis
      proof (cases "?u = w")
        case same: True
        with out IH rs Cons show ?thesis by simp
      next
        case diff: False
        have "runs (?u @ ?X) = ?u # runs ?X"
        proof (rule runs_run_append)
          show "?u \<noteq> []" using True by simp
          show "\<forall>c \<in> set ?u. is_word_char c" by (auto dest: set_takeWhileD)
          show "takeWhile is_word_char ?X = []"
            by (rule scan_starts_nonword [OF assms]) simp
        qed
        with out IH rs Cons diff show ?thesis by simp
      qed
    qed
  qed
qed

lemma delete_absent:
  assumes "wordlike w"
  shows "w \<notin> set (runs s) \<Longrightarrow> replace_g (match_word w []) None s = s"
proof (induction "length s" arbitrary: s rule: less_induct)
  case less
  show ?case
  proof (cases s)
    case Nil
    then show ?thesis by (simp add: replace_g.simps match_word_Nil [OF assms])
  next
    case (Cons c cs)
    show ?thesis
    proof (cases "is_word_char c")
      case False
      have "replace_g (match_word w []) None cs = cs"
        using less.prems Cons False by (intro less.hyps) (simp_all add: runs_nonword_start)
      with False Cons show ?thesis
        by (simp add: scan_nonword [OF assms])
    next
      case True
      let ?u = "takeWhile is_word_char (c # cs)"
      let ?rest = "dropWhile is_word_char cs"
      have rs: "runs (c # cs) = ?u # runs ?rest"
        by (rule runs_run_start [OF True])
      have "length ?rest < length s"
        using Cons by (simp add: le_imp_less_Suc length_dropWhile_le)
      moreover have "w \<notin> set (runs ?rest)" and diff: "?u \<noteq> w"
        using less.prems Cons rs by auto
      ultimately have IH: "replace_g (match_word w []) None ?rest = ?rest"
        by (intro less.hyps)
      have "replace_g (match_word w []) None (c # cs) = ?u @ ?rest"
        using scan_run [OF assms True, of "[]" cs] diff IH by simp
      also have "\<dots> = c # cs"
        using True by simp
      finally show ?thesis using Cons by simp
    qed
  qed
qed

subsection \<open>Collapsing white space and trimming\<close>

lemma collapse_prev: "replace_g match_spaces prev s = replace_g match_spaces None s"
  by (cases s) (simp_all add: replace_g.simps match_spaces_def)

lemma collapse_Nil: "replace_g match_spaces prev [] = []"
  by (simp add: replace_g.simps match_spaces_def)

lemma collapse_space:
  assumes "is_space c"
  shows "replace_g match_spaces prev (c # cs)
           = CHR '' '' # replace_g match_spaces None (dropWhile is_space cs)"
proof -
  have "drop (length (takeWhile is_space cs)) cs = dropWhile is_space cs"
    by (simp add: dropWhile_eq_drop)
  with assms show ?thesis
    by (simp add: replace_g.simps match_spaces_def Let_def
        collapse_prev [of "Some _" "dropWhile is_space cs"])
qed

lemma collapse_other:
  assumes "\<not> is_space c"
  shows "replace_g match_spaces prev (c # cs) = c # replace_g match_spaces None cs"
  using assms
  by (simp add: replace_g.simps match_spaces_def collapse_prev [of "Some c" cs])

lemma tidy_tl: "tidy (c # cs) \<Longrightarrow> tidy cs"
  by (cases cs) simp_all

lemma tidy_cons_other: "\<not> is_space c \<Longrightarrow> tidy (c # x) = tidy x"
  by (cases x) simp_all

lemma tidy_cons_space:
  "tidy (CHR '' '' # x) = (tidy x \<and> takeWhile is_space x = [])"
  by (cases x) (auto simp: is_space_def code_def)

lemma collapse_starts_other:
  assumes "takeWhile is_space z = []"
  shows "takeWhile is_space (replace_g match_spaces None z) = []"
proof (cases z)
  case Nil
  then show ?thesis by (simp add: collapse_Nil)
next
  case (Cons c cs)
  with assms have "\<not> is_space c" by (simp split: if_splits)
  with Cons show ?thesis by (simp add: collapse_other)
qed

lemma collapse_tidy: "tidy (replace_g match_spaces None s)"
proof (induction "length s" arbitrary: s rule: less_induct)
  case less
  show ?case
  proof (cases s)
    case Nil
    then show ?thesis by (simp add: collapse_Nil)
  next
    case (Cons c cs)
    show ?thesis
    proof (cases "is_space c")
      case True
      have "length (dropWhile is_space cs) < length s"
        using Cons by (simp add: le_imp_less_Suc length_dropWhile_le)
      then have "tidy (replace_g match_spaces None (dropWhile is_space cs))"
        by (rule less)
      with True Cons show ?thesis
        by (simp add: collapse_space tidy_cons_space collapse_starts_other)
    next
      case False
      have "tidy (replace_g match_spaces None cs)"
        by (rule less) (simp add: Cons)
      with False Cons show ?thesis
        by (simp add: collapse_other tidy_cons_other)
    qed
  qed
qed

lemma collapse_of_tidy: "tidy x \<Longrightarrow> replace_g match_spaces None x = x"
proof (induction x)
  case Nil
  then show ?case by (simp add: collapse_Nil)
next
  case (Cons c cs)
  from Cons.prems have IH: "replace_g match_spaces None cs = cs"
    by (intro Cons.IH) (rule tidy_tl)
  show ?case
  proof (cases "is_space c")
    case True
    with Cons.prems have c: "c = CHR '' ''" and "takeWhile is_space cs = []"
      by (cases cs; simp)+
    then have "dropWhile is_space cs = cs"
      using takeWhile_dropWhile_id [of is_space cs] by simp
    with True c IH show ?thesis by (simp add: collapse_space)
  next
    case False
    with IH show ?thesis by (simp add: collapse_other)
  qed
qed

lemma wr_collapse: "wr cur (replace_g match_spaces None s) = wr cur s"
proof (induction "length s" arbitrary: s cur rule: less_induct)
  case less
  show ?case
  proof (cases s)
    case Nil
    then show ?thesis by (simp add: collapse_Nil)
  next
    case (Cons c cs)
    show ?thesis
    proof (cases "is_space c")
      case True
      have "length (dropWhile is_space cs) < length s"
        using Cons by (simp add: le_imp_less_Suc length_dropWhile_le)
      then have "wr [] (replace_g match_spaces None (dropWhile is_space cs))
          = wr [] (dropWhile is_space cs)"
        by (rule less)
      also have "\<dots> = wr [] cs"
        by (rule wr_dropWhile_nonword) (rule space_not_word)
      finally show ?thesis
        using True Cons space_not_word [OF True]
        by (simp add: collapse_space space_not_word is_space_def code_def)
    next
      case False
      have "wr cur' (replace_g match_spaces None cs) = wr cur' cs" for cur'
        by (rule less) (simp add: Cons)
      with False Cons show ?thesis
        by (simp add: collapse_other)
    qed
  qed
qed

lemma tidy_dropWhile: "tidy x \<Longrightarrow> tidy (dropWhile P x)"
  by (induction x) (auto dest: tidy_tl)

lemma tidy_prefix: "tidy (x @ y) \<Longrightarrow> tidy x"
proof (induction x rule: tidy.induct)
  case 1
  then show ?case by simp
next
  case (2 c)
  then show ?case by (cases y) simp_all
next
  case (3 a b cs)
  then show ?case by simp
qed

lemma trim_split:
  "dropWhile is_space x = trim x @ rev (takeWhile is_space (rev (dropWhile is_space x)))"
  unfolding trim_def by (metis rev_append rev_rev_ident takeWhile_dropWhile_id)

lemma tidy_trim: "tidy x \<Longrightarrow> tidy (trim x)"
  using tidy_prefix [of "trim x" "rev (takeWhile is_space (rev (dropWhile is_space x)))"]
    trim_split [of x] tidy_dropWhile [of x is_space]
  by simp

lemma trim_trim: "trim (trim x) = trim x"
proof -
  have at_end: "dropWhile is_space (rev (trim x)) = rev (trim x)"
    by (simp add: trim_def)
  have at_start: "dropWhile is_space (trim x) = trim x"
  proof (cases "trim x")
    case Nil
    then show ?thesis by simp
  next
    case (Cons c cs)
    with trim_split [of x] have F: "dropWhile is_space x = c # (cs
        @ rev (takeWhile is_space (rev (dropWhile is_space x))))"
      by simp
    then have "\<not> is_space c"
      using hd_dropWhile [of is_space x] by (metis list.distinct(1) list.sel(1))
    with Cons show ?thesis by simp
  qed
  show ?thesis
    unfolding trim_def [of "trim x"] at_start at_end by simp
qed

subsection \<open>Characters and lengths\<close>

lemma lower_char_idem: "lower_char (lower_char c) = lower_char c"
proof (cases "is_upper c")
  case False
  then show ?thesis by (simp add: lower_char_def)
next
  case True
  then have "code c + 32 < 256" and "\<not> is_upper (char_of (code c + 32))"
    by (auto simp: is_upper_def code_def)
  then show ?thesis by (simp add: lower_char_def)
qed

lemma strip_keeps:
  "\<forall>c \<in> set s. keep c \<Longrightarrow> replace_g (match_not keep r) prev s = s"
  by (induction s arbitrary: prev) (simp_all add: replace_g.simps match_not_def)

lemma strip_map:
  "replace_g (match_not keep r) prev s = concat (map (\<lambda>c. if keep c then [c] else r) s)"
  by (induction s arbitrary: prev) (simp_all add: replace_g.simps match_not_def)

lemma replace_g_set:
  assumes "\<And>prev s n r. m prev s = Some (n, r) \<Longrightarrow> set r \<subseteq> G"
  shows "set s \<subseteq> G \<Longrightarrow> set (replace_g m prev s) \<subseteq> G"
proof (induction "length s" arbitrary: s prev rule: less_induct)
  case less
  show ?case
  proof (cases s)
    case Nil
    show ?thesis
    proof (cases "m prev []")
      case None
      with Nil show ?thesis by (simp add: replace_g.simps)
    next
      case (Some nr)
      obtain n r where nr: "nr = (n, r)" by (cases nr)
      from assms [of prev "[]" n r] Some nr have "set r \<subseteq> G" by simp
      with Some nr Nil show ?thesis by (simp add: replace_g.simps)
    qed
  next
    case (Cons c cs)
    have tl: "set (replace_g m p cs) \<subseteq> G" for p
      using less.prems Cons by (intro less.hyps) auto
    show ?thesis
    proof (cases "m prev (c # cs)")
      case None
      with Cons less.prems tl show ?thesis by (simp add: replace_g.simps)
    next
      case (Some nr)
      obtain n r where nr: "nr = (n, r)" by (cases nr)
      from assms [of prev "c # cs" n r] Some nr have r: "set r \<subseteq> G" by simp
      show ?thesis
      proof (cases "n = 0")
        case True
        with Some nr Cons less.prems tl r show ?thesis by (simp add: replace_g.simps)
      next
        case False
        have "set (drop n (c # cs)) \<subseteq> G"
          using less.prems Cons set_drop_subset [of n "c # cs"] by blast
        moreover have "length (drop n (c # cs)) < length s"
          using False Cons by simp
        ultimately have "set (replace_g m p (drop n (c # cs))) \<subseteq> G" for p
          by (intro less.hyps)
        with Some nr Cons False r show ?thesis by (simp add: replace_g.simps)
      qed
    qed
  qed
qed

lemma settled_space: "settled CHR '' ''"
  by (simp add: settled_def lower_char_def is_upper_def keep_normalize_def is_space_def code_def)

lemma settled_turn: "set ''turn on'' \<subseteq> Collect settled" "set ''turn off'' \<subseteq> Collect settled"
  by (simp_all add: settled_def lower_char_def is_upper_def keep_normalize_def is_space_def
      is_letter_def code_def)

lemma match_switch_settled: "match_switch prev s = Some (n, r) \<Longrightarrow> set r \<subseteq> Collect settled"
  using settled_turn by (auto simp: match_switch_def Let_def split: if_splits)

lemma match_word_settled: "match_word w [] prev s = Some (n, r) \<Longrightarrow> set r \<subseteq> Collect settled"
  by (auto simp: match_word_def split: if_splits)

lemma match_spaces_settled: "match_spaces prev s = Some (n, r) \<Longrightarrow> set r \<subseteq> Collect settled"
  using settled_space by (auto simp: match_spaces_def Let_def split: if_splits)

lemma strip_lower_settled:
  "set (replace_g (match_not keep_normalize '' '') prev (toLowerCase s)) \<subseteq> Collect settled"
proof -
  have "settled (lower_char c)" if "keep_normalize (lower_char c)" for c
    using that by (simp add: settled_def lower_char_idem)
  with settled_space show ?thesis
    by (auto simp: strip_map toLowerCase_def)
qed

lemma trim_subset: "set (trim s) \<subseteq> set s"
  unfolding trim_def by (metis set_rev set_dropWhileD subsetI)

lemma wordlike_fillers:
  "wordlike ''please''" "wordlike ''the''" "wordlike ''a''" "wordlike ''an''" "wordlike ''my''"
  by (simp_all add: wordlike_def is_word_char_def code_def)

lemma replace_g_length:
  assumes "\<And>prev s n r. m prev s = Some (n, r) \<Longrightarrow> length r \<le> n \<and> n \<le> length s"
  shows "length (replace_g m prev s) \<le> length s"
proof (induction "length s" arbitrary: s prev rule: less_induct)
  case less
  show ?case
  proof (cases "m prev s")
    case None
    show ?thesis
    proof (cases s)
      case Nil
      with None show ?thesis by (simp add: replace_g.simps)
    next
      case (Cons c cs)
      have "length (replace_g m (Some c) cs) \<le> length cs"
        by (rule less) (simp add: Cons)
      with None Cons show ?thesis by (simp add: replace_g.simps)
    qed
  next
    case (Some nr)
    obtain n r where nr: "nr = (n, r)" by (cases nr)
    from assms [of prev s n r] Some nr have r: "length r \<le> n" and n: "n \<le> length s" by simp_all
    show ?thesis
    proof (cases s)
      case Nil
      with Some nr r n show ?thesis by (simp add: replace_g.simps)
    next
      case (Cons c cs)
      show ?thesis
      proof (cases "n = 0")
        case True
        have "length (replace_g m (Some c) cs) \<le> length cs"
          by (rule less) (simp add: Cons)
        with Some nr Cons True r show ?thesis by (simp add: replace_g.simps)
      next
        case False
        have "length (replace_g m p (drop n (c # cs))) \<le> length (drop n (c # cs))" for p
          by (rule less) (use False Cons in simp)
        from this [of "Some (last (take n (c # cs)))"] Some nr Cons False r n
        show ?thesis by (simp add: replace_g.simps)
      qed
    qed
  qed
qed

lemma match_word_length:
  "match_word w [] prev s = Some (n, r) \<Longrightarrow> length r \<le> n \<and> n \<le> length s"
  by (auto simp: match_word_def prefix_def split: if_splits)

lemma match_spaces_length:
  "match_spaces prev s = Some (n, r) \<Longrightarrow> length r \<le> n \<and> n \<le> length s"
  by (auto simp: match_spaces_def Let_def length_takeWhile_le Suc_le_eq split: if_splits)

lemma match_switch_cases:
  assumes "match_switch prev s = Some (n, r)"
  shows "prefix ''switch'' s \<and> takeWhile is_space (drop 6 s) \<noteq> []
         \<and> ((prefix ''on'' (dropWhile is_space (drop 6 s))
               \<and> n = 6 + length (takeWhile is_space (drop 6 s)) + 2 \<and> r = ''turn on'')
            \<or> (prefix ''off'' (dropWhile is_space (drop 6 s))
               \<and> n = 6 + length (takeWhile is_space (drop 6 s)) + 3 \<and> r = ''turn off''))"
proof -
  define A where "A = (at_boundary prev (hd_opt s) \<and> prefix ''switch'' s)"
  define ws where "ws = takeWhile is_space (drop 6 s)"
  define rest2 where "rest2 = dropWhile is_space (drop 6 s)"
  define B where "B = (prefix ''on'' rest2 \<and> at_boundary (Some CHR ''n'') (hd_opt (drop 2 rest2)))"
  define C where "C = (prefix ''off'' rest2 \<and> at_boundary (Some CHR ''f'') (hd_opt (drop 3 rest2)))"
  have ms: "match_switch prev s =
      (if A then (if ws = [] then None
                  else if B then Some (6 + length ws + 2, ''turn on'')
                  else if C then Some (6 + length ws + 3, ''turn off'')
                  else None)
       else None)"
    unfolding match_switch_def Let_def A_def ws_def rest2_def B_def C_def ..
  from assms [unfolded ms] have A and "ws \<noteq> []"
    and "(B \<and> n = 6 + length ws + 2 \<and> r = ''turn on'')
         \<or> (C \<and> n = 6 + length ws + 3 \<and> r = ''turn off'')"
    by (auto split: if_splits)
  then show ?thesis
    unfolding A_def B_def C_def ws_def rest2_def by blast
qed

lemma match_switch_length:
  assumes "match_switch prev s = Some (n, r)"
  shows "length r < n \<and> n \<le> length s"
proof -
  let ?rest = "drop 6 s"
  let ?ws = "takeWhile is_space ?rest"
  let ?rest2 = "dropWhile is_space ?rest"
  note c = match_switch_cases [OF assms]
  from c have "prefix ''switch'' s" by (rule conjunct1)
  then have "length ''switch'' \<le> length s" by (rule prefix_length_le)
  then have len: "length s = 6 + length ?rest" by simp
  have split: "length ?rest = length ?ws + length ?rest2"
    using takeWhile_dropWhile_id [of is_space ?rest] by (metis length_append)
  from c have "?ws \<noteq> []" by (rule conjunct2 [THEN conjunct1])
  then have ws: "0 < length ?ws" by simp
  from c have
    "(prefix ''on'' ?rest2 \<and> n = 6 + length ?ws + 2 \<and> r = ''turn on'')
     \<or> (prefix ''off'' ?rest2 \<and> n = 6 + length ?ws + 3 \<and> r = ''turn off'')"
    by (rule conjunct2 [THEN conjunct2])
  then show ?thesis
  proof (elim disjE conjE)
    assume p: "prefix ''on'' ?rest2" and n: "n = 6 + length ?ws + 2" and r: "r = ''turn on''"
    from p have "length ''on'' \<le> length ?rest2" by (rule prefix_length_le)
    then have "2 \<le> length ?rest2" by simp
    moreover have "length r = 7" by (simp add: r)
    ultimately show ?thesis using n len split ws by linarith
  next
    assume p: "prefix ''off'' ?rest2" and n: "n = 6 + length ?ws + 3" and r: "r = ''turn off''"
    from p have "length ''off'' \<le> length ?rest2" by (rule prefix_length_le)
    then have "3 \<le> length ?rest2" by simp
    moreover have "length r = 8" by (simp add: r)
    ultimately show ?thesis using n len split ws by linarith
  qed
qed

lemma switch_Nil: "replace_g match_switch prev [] = []"
proof -
  have "\<not> prefix ''switch'' []" by simp
  then have "match_switch prev [] = None"
    by (simp only: match_switch_def simp_thms if_False)
  then show ?thesis by (simp add: replace_g.simps)
qed

lemma switch_length_le: "length (replace_g match_switch prev s) \<le> length s"
proof (rule replace_g_length)
  fix prev s n r
  assume "match_switch prev s = Some (n, r)"
  from match_switch_length [OF this] show "length r \<le> n \<and> n \<le> length s" by simp
qed

lemma switch_shrinks:
  "replace_g match_switch prev s \<noteq> s \<Longrightarrow> length (replace_g match_switch prev s) < length s"
proof (induction s arbitrary: prev)
  case Nil
  then show ?case by (simp add: switch_Nil)
next
  case (Cons c cs)
  show ?case
  proof (cases "match_switch prev (c # cs)")
    case None
    with Cons.prems have "replace_g match_switch (Some c) cs \<noteq> cs"
      by (simp add: replace_g.simps)
    from Cons.IH [OF this] None show ?thesis by (simp add: replace_g.simps)
  next
    case (Some nr)
    obtain n r where nr: "nr = (n, r)" by (cases nr)
    from match_switch_length [of prev "c # cs" n r] Some nr
    have r: "length r < n" and n: "n \<le> length (c # cs)" by simp_all
    then have "n \<noteq> 0" by simp
    with Some nr have "replace_g match_switch prev (c # cs)
        = r @ replace_g match_switch (Some (last (take n (c # cs)))) (drop n (c # cs))"
      by (simp add: replace_g.simps)
    moreover have "length (replace_g match_switch (Some (last (take n (c # cs)))) (drop n (c # cs)))
        \<le> length (drop n (c # cs))"
      by (rule switch_length_le)
    ultimately show ?thesis using r n by simp
  qed
qed

lemma trim_length: "length (trim s) \<le> length s"
  unfolding trim_def
  by (metis length_dropWhile_le length_rev order_trans)

subsection \<open>The normalizer on its own output\<close>

lemma normalize_unfold:
  "s \<noteq> [] \<Longrightarrow> normalizeUtterance s =
     trim (replace_g match_spaces None
       (replace_g (match_word ''my'' []) None
         (replace_g (match_word ''an'' []) None
           (replace_g (match_word ''a'' []) None
             (replace_g (match_word ''the'' []) None
               (replace_g (match_word ''please'' []) None
                 (replace_g match_switch None
                   (replace_g (match_not keep_normalize '' '') None (toLowerCase s)))))))))"
  by (simp add: normalizeUtterance_def SYNONYM_REPLACEMENTS_def replace_all_def)

lemma normalize_Nil: "normalizeUtterance [] = []"
  by (simp add: normalizeUtterance_def)

text \<open>What every output of the normalizer looks like.\<close>

lemma normalized_shape:
  "set (normalizeUtterance s) \<subseteq> Collect settled"
  "tidy (normalizeUtterance s)"
  "trim (normalizeUtterance s) = normalizeUtterance s"
  "set (runs (normalizeUtterance s)) \<inter> {''please'', ''the'', ''a'', ''an'', ''my''} = {}"
proof -
  let ?B = "replace_g (match_not keep_normalize '' '') None (toLowerCase s)"
  let ?C = "replace_g match_switch None ?B"
  let ?D1 = "replace_g (match_word ''please'' []) None ?C"
  let ?D2 = "replace_g (match_word ''the'' []) None ?D1"
  let ?D3 = "replace_g (match_word ''a'' []) None ?D2"
  let ?D4 = "replace_g (match_word ''an'' []) None ?D3"
  let ?D5 = "replace_g (match_word ''my'' []) None ?D4"
  let ?E = "replace_g match_spaces None ?D5"
  have t: "normalizeUtterance s = trim ?E" if "s \<noteq> []"
    using that by (rule normalize_unfold)
  have B: "set ?B \<subseteq> Collect settled"
    by (rule strip_lower_settled)
  have C: "set ?C \<subseteq> Collect settled"
    using match_switch_settled B by (rule replace_g_set)
  have D1: "set ?D1 \<subseteq> Collect settled"
    using match_word_settled C by (rule replace_g_set)
  have D2: "set ?D2 \<subseteq> Collect settled"
    using match_word_settled D1 by (rule replace_g_set)
  have D3: "set ?D3 \<subseteq> Collect settled"
    using match_word_settled D2 by (rule replace_g_set)
  have D4: "set ?D4 \<subseteq> Collect settled"
    using match_word_settled D3 by (rule replace_g_set)
  have D5: "set ?D5 \<subseteq> Collect settled"
    using match_word_settled D4 by (rule replace_g_set)
  have E: "set ?E \<subseteq> Collect settled"
    using match_spaces_settled D5 by (rule replace_g_set)
  show "set (normalizeUtterance s) \<subseteq> Collect settled"
  proof (cases "s = []")
    case True
    then show ?thesis by (simp add: normalize_Nil)
  next
    case False
    from t [OF False] E trim_subset [of ?E] show ?thesis by auto
  qed
  show "tidy (normalizeUtterance s)"
  proof (cases "s = []")
    case True
    then show ?thesis by (simp add: normalize_Nil)
  next
    case False
    from t [OF False] tidy_trim [OF collapse_tidy, of ?D5] show ?thesis by simp
  qed
  show "trim (normalizeUtterance s) = normalizeUtterance s"
  proof (cases "s = []")
    case True
    then show ?thesis by (simp add: normalize_Nil trim_def)
  next
    case False
    from t [OF False] trim_trim [of ?E] show ?thesis by simp
  qed
  show "set (runs (normalizeUtterance s)) \<inter> {''please'', ''the'', ''a'', ''an'', ''my''} = {}"
  proof (cases "s = []")
    case True
    then show ?thesis by (simp add: normalize_Nil runs_def)
  next
    case False
    have "runs (normalizeUtterance s) = runs ?D5"
      using t [OF False] by (simp add: runs_trim) (simp add: runs_def wr_collapse)
    also have "\<dots> = filter (\<lambda>u. u \<noteq> ''my'') (filter (\<lambda>u. u \<noteq> ''an'')
        (filter (\<lambda>u. u \<noteq> ''a'') (filter (\<lambda>u. u \<noteq> ''the'')
          (filter (\<lambda>u. u \<noteq> ''please'') (runs ?C)))))"
      by (simp only: runs_delete [OF wordlike_fillers(1)] runs_delete [OF wordlike_fillers(2)]
          runs_delete [OF wordlike_fillers(3)] runs_delete [OF wordlike_fillers(4)]
          runs_delete [OF wordlike_fillers(5)])
    finally show ?thesis by auto
  qed
qed

text \<open>A string of that shape which the first substitution leaves alone is a fixed point.\<close>

lemma normalize_fixed:
  assumes chars: "set t \<subseteq> Collect settled" and tidy: "tidy t" and trim: "trim t = t"
    and fillers: "set (runs t) \<inter> {''please'', ''the'', ''a'', ''an'', ''my''} = {}"
    and switch: "replace_all match_switch t = t"
  shows "normalizeUtterance t = t"
proof (cases "t = []")
  case True
  then show ?thesis by (simp add: normalize_Nil)
next
  case False
  have lower: "toLowerCase t = t"
    unfolding toLowerCase_def using chars by (intro map_idI) (auto simp: settled_def)
  have strip: "replace_g (match_not keep_normalize '' '') None t = t"
    using chars by (intro strip_keeps) (auto simp: settled_def)
  have sw: "replace_g match_switch None t = t"
    using switch by (simp add: replace_all_def)
  have del: "replace_g (match_word w []) None t = t"
    if "wordlike w" "w \<in> {''please'', ''the'', ''a'', ''an'', ''my''}" for w
    using that fillers by (intro delete_absent) auto
  have d1: "replace_g (match_word ''please'' []) None t = t"
    and d2: "replace_g (match_word ''the'' []) None t = t"
    and d3: "replace_g (match_word ''a'' []) None t = t"
    and d4: "replace_g (match_word ''an'' []) None t = t"
    and d5: "replace_g (match_word ''my'' []) None t = t"
    using wordlike_fillers by (simp_all add: del)
  have col: "replace_g match_spaces None t = t"
    using tidy by (rule collapse_of_tidy)
  show ?thesis
    by (simp only: normalize_unfold [OF False] lower strip sw d1 d2 d3 d4 d5 col trim)
qed

lemma normalize_not_fixed:
  assumes chars: "set t \<subseteq> Collect settled"
    and switch: "replace_all match_switch t \<noteq> t"
  shows "normalizeUtterance t \<noteq> t"
proof -
  let ?C = "replace_g match_switch None t"
  let ?D1 = "replace_g (match_word ''please'' []) None ?C"
  let ?D2 = "replace_g (match_word ''the'' []) None ?D1"
  let ?D3 = "replace_g (match_word ''a'' []) None ?D2"
  let ?D4 = "replace_g (match_word ''an'' []) None ?D3"
  let ?D5 = "replace_g (match_word ''my'' []) None ?D4"
  let ?E = "replace_g match_spaces None ?D5"
  from switch have ne: "t \<noteq> []"
    by (auto simp: replace_all_def switch_Nil)
  have lower: "toLowerCase t = t"
    unfolding toLowerCase_def using chars by (intro map_idI) (auto simp: settled_def)
  have strip: "replace_g (match_not keep_normalize '' '') None t = t"
    using chars by (intro strip_keeps) (auto simp: settled_def)
  have n: "normalizeUtterance t = trim ?E"
    by (simp only: normalize_unfold [OF ne] lower strip)
  have "length (trim ?E) \<le> length ?E" by (rule trim_length)
  also have "\<dots> \<le> length ?D5"
    by (rule replace_g_length) (rule match_spaces_length)
  also have "\<dots> \<le> length ?D4"
    by (rule replace_g_length) (rule match_word_length)
  also have "\<dots> \<le> length ?D3"
    by (rule replace_g_length) (rule match_word_length)
  also have "\<dots> \<le> length ?D2"
    by (rule replace_g_length) (rule match_word_length)
  also have "\<dots> \<le> length ?D1"
    by (rule replace_g_length) (rule match_word_length)
  also have "\<dots> \<le> length ?C"
    by (rule replace_g_length) (rule match_word_length)
  also have "\<dots> < length t"
    using switch by (intro switch_shrinks) (simp add: replace_all_def)
  finally show ?thesis using n by auto
qed

text \<open>
  C2, as the code has it. The switch rule runs before the filler words are deleted, so
  deleting a filler word can bring \<open>switch\<close> and \<open>on\<close> or \<open>off\<close> together, and
  only a second pass rewrites them. The normalizer leaves its own output unchanged
  exactly when the switch rule finds nothing to rewrite in that output.
\<close>

theorem normalize_idempotent_iff:
  "(normalizeUtterance (normalizeUtterance s) = normalizeUtterance s)
   = (replace_all match_switch (normalizeUtterance s) = normalizeUtterance s)"
  using normalize_fixed [OF normalized_shape, of s]
    normalize_not_fixed [OF normalized_shape(1), of s]
  by blast

theorem normalize_idempotent_iff_witness:
  "normalizeUtterance ''Switch on the pool pump'' = ''turn on pool pump''
   \<and> normalizeUtterance (normalizeUtterance ''Switch on the pool pump'')
       = normalizeUtterance ''Switch on the pool pump''"
proof -
  have n: "normalizeUtterance ''Switch on the pool pump'' = ''turn on pool pump''"
    by code_simp
  have "replace_all match_switch ''turn on pool pump'' = ''turn on pool pump''"
    by code_simp
  with n normalize_idempotent_iff [of "''Switch on the pool pump''"] show ?thesis
    by simp
qed

text \<open>
  The claim as stated fails where a filler word stands between \<open>switch\<close> and \<open>on\<close>:
  the first pass deletes the filler word, the second pass rewrites \<open>switch on\<close>.
\<close>

theorem normalize_not_idempotent:
  "normalizeUtterance ''Switch, please, on the light'' = ''switch on light''
   \<and> normalizeUtterance (normalizeUtterance ''Switch, please, on the light'') = ''turn on light''"
  by code_simp


end
